theory Spec2Isabelle
  imports Complex_Main "HOL-Library.Sublist" "HOL-Library.Multiset" "HOL-Library.AList"
    "HOL-Library.Extended_Nat" "HOL-Library.Code_Target_Nat"
begin

section \<open>JavaScript strings\<close>

text \<open>
  A JavaScript string is a sequence of UTF-16 code units. The model uses \<^typ>\<open>string\<close>,
  whose characters are the code units U+0000 to U+00FF; every string constant of
  \<^verbatim>\<open>server.js\<close> lies in that range. The character classes below are the
  ECMAScript ones cut down to it.
\<close>

definition is_digit :: "char \<Rightarrow> bool" where
  \<comment> \<open>the regular expression class \<^verbatim>\<open>\d\<close>\<close>
  "is_digit c = (c \<in> set ''0123456789'')"

definition is_line_terminator :: "char \<Rightarrow> bool" where
  \<comment> \<open>LF and CR: the characters that \<^verbatim>\<open>.\<close> of a regular expression refuses\<close>
  "is_line_terminator c = (c = CHR 0x0A \<or> c = CHR 0x0D)"

definition is_space :: "char \<Rightarrow> bool" where
  \<comment> \<open>the class \<^verbatim>\<open>\s\<close>, which is also what \<^verbatim>\<open>trim\<close> removes:
      TAB, LF, VT, FF, CR, SP and NBSP\<close>
  "is_space c = (c \<in> {CHR 0x09, CHR 0x0A, CHR 0x0B, CHR 0x0C, CHR 0x0D, CHR 0x20, CHR 0xA0})"

definition trim :: "string \<Rightarrow> string" where
  \<comment> \<open>\<^verbatim>\<open>String.prototype.trim\<close>\<close>
  "trim s = rev (dropWhile is_space (rev (dropWhile is_space s)))"

definition lower_char :: "char \<Rightarrow> char" where
  \<comment> \<open>A to Z, and U+00C0 to U+00DE without the multiplication sign, move up by 32\<close>
  "lower_char c =
     (let n = (of_char c :: nat)
      in if (65 \<le> n \<and> n \<le> 90) \<or> (192 \<le> n \<and> n \<le> 222 \<and> n \<noteq> 215)
         then char_of (n + 32) else c)"

definition toLowerCase :: "string \<Rightarrow> string" where
  "toLowerCase s = map lower_char s"

fun str_includes :: "string \<Rightarrow> string \<Rightarrow> bool" where
  \<comment> \<open>\<^verbatim>\<open>s.includes(sub)\<close>: \<open>sub\<close> starts at some position of \<open>s\<close>\<close>
  "str_includes [] sub = (sub = [])"
| "str_includes (c # cs) sub = (prefix sub (c # cs) \<or> str_includes cs sub)"

fun replace_first :: "string \<Rightarrow> string \<Rightarrow> string" where
  \<comment> \<open>\<^verbatim>\<open>s.replace(pat, '')\<close> with a string pattern: only the leftmost
      occurrence of \<open>pat\<close> is removed, wherever it is; without one, \<open>s\<close> is returned\<close>
  "replace_first pat [] = []"
| "replace_first pat (c # cs) =
     (if prefix pat (c # cs) then drop (length pat) (c # cs) else c # replace_first pat cs)"

fun split_from :: "string \<Rightarrow> string \<Rightarrow> string \<Rightarrow> string list" where
  \<comment> \<open>the scan of \<^verbatim>\<open>s.split(sep)\<close> for a separator that is not empty: \<open>acc\<close> is the
      current piece, reversed; after a separator the scan goes on behind it\<close>
  "split_from sep acc [] = [rev acc]"
| "split_from sep acc (c # cs) =
     (if sep \<noteq> [] \<and> prefix sep (c # cs)
      then rev acc # split_from sep [] (drop (length sep - 1) cs)
      else split_from sep (c # acc) cs)"

definition split :: "string \<Rightarrow> string \<Rightarrow> string list" where
  "split s sep = split_from sep [] s"

fun decimal_value :: "nat \<Rightarrow> string \<Rightarrow> nat" where
  \<comment> \<open>the natural number that a run of decimal digits denotes, read from the left with
      the value so far as accumulator\<close>
  "decimal_value acc [] = acc"
| "decimal_value acc (c # cs) = decimal_value (10 * acc + (of_char c - 48)) cs"

fun show_nat :: "nat \<Rightarrow> string" where
  \<comment> \<open>the decimal digits of a natural number\<close>
  "show_nat n =
     (if n < 10 then [char_of (48 + n)] else show_nat (n div 10) @ [char_of (48 + n mod 10)])"

section \<open>JavaScript numbers\<close>

text \<open>
  A JavaScript Number is an IEEE 754 double: 53 significant bits, and \<open>+\<infinity>\<close> for what
  lies at or above \<open>2 ^ 1024 - 2 ^ 970\<close>. The track numbers of this program are naturals
  or \<open>+\<infinity>\<close>, so they are modelled by \<^typ>\<open>enat\<close>. The comparator
  \<^verbatim>\<open>a.order - b.order\<close> of line 175 is negative, zero or positive as the order of
  \<^typ>\<open>enat\<close> says; for two infinite numbers it is \<^verbatim>\<open>NaN\<close>, which
  \<^verbatim>\<open>sort\<close> takes for zero.
\<close>

type_synonym number = enat

fun bit_length :: "nat \<Rightarrow> nat" where
  \<comment> \<open>the number of binary digits of a natural number\<close>
  "bit_length n = (if n = 0 then 0 else Suc (bit_length (n div 2)))"

definition round_to_53_bits :: "nat \<Rightarrow> nat" where
  \<comment> \<open>round to nearest, ties to even: of the two neighbours of \<open>P\<close> with at most 53
      significant bits the nearer one, and of two equally near ones the one whose
      significand is even. \<open>s\<close> is the number of bits that do not fit.\<close>
  "round_to_53_bits P =
     (let s = bit_length P - 53; q = P div 2 ^ s; r = P mod 2 ^ s
      in if 2 * r < 2 ^ s \<or> (2 * r = 2 ^ s \<and> even q) then q * 2 ^ s else (q + 1) * 2 ^ s)"

definition to_Number :: "nat \<Rightarrow> number" where
  \<comment> \<open>the Number value for a natural: the rounded value when that is below \<open>2 ^ 1024\<close>
      (has at most 1024 bits), \<open>+\<infinity>\<close> otherwise\<close>
  "to_Number v =
     (let w = round_to_53_bits v in if bit_length w \<le> 1024 then enat w else \<infinity>)"

definition parseInt :: "string \<Rightarrow> number" where
  \<comment> \<open>\<^verbatim>\<open>parseInt(ds, 10)\<close> on a run of decimal digits: the Number value for the
      natural that the digits denote. (The language lets an engine replace the digits
      behind the twentieth significant one by zeros first; V8, the engine of Node.js, does
      not.)\<close>
  "parseInt ds = to_Number (decimal_value 0 ds)"

fun digits_count :: "nat \<Rightarrow> nat" where
  \<comment> \<open>the number of decimal digits of a natural number\<close>
  "digits_count n = (if n < 10 then 1 else Suc (digits_count (n div 10)))"

fun shortest_decimal :: "nat \<Rightarrow> nat \<Rightarrow> nat" where
  \<comment> \<open>the decimal that \<^verbatim>\<open>Number::toString\<close> prints for the finite Number \<open>v\<close>:
      a natural with as few significant digits as possible whose Number value is \<open>v\<close>.
      The search starts with all but the first digit of \<open>v\<close> replaced by zeros
      (\<open>p\<close> is the number of such places) and tries the multiple of \<open>10 ^ p\<close> below
      \<open>v\<close> and the one above; of two that fit, the nearer one is taken, and the one with
      the even last digit when both are equally near.\<close>
  "shortest_decimal v 0 = v"
| "shortest_decimal v (Suc p) =
     (let lo = v div 10 ^ Suc p * 10 ^ Suc p;
          hi = lo + 10 ^ Suc p;
          lo_fits = (to_Number lo = enat v);
          hi_fits = (to_Number hi = enat v)
      in if lo_fits \<and> (\<not> hi_fits \<or> v - lo < hi - v
                       \<or> (v - lo = hi - v \<and> even (v div 10 ^ Suc p)))
         then lo
         else if hi_fits then hi
         else shortest_decimal v p)"

definition Number_toString :: "number \<Rightarrow> string" where
  \<comment> \<open>a Number inside a template literal: all digits of the shortest decimal when these
      are 21 or fewer, otherwise its significant digits with a point behind the first and
      the exponent\<close>
  "Number_toString x =
     (case x of
        \<infinity> \<Rightarrow> ''Infinity''
      | enat v \<Rightarrow>
          let c = shortest_decimal v (digits_count v - 1);
              n = digits_count c;
              s = rev (dropWhile (\<lambda>d. d = CHR ''0'') (rev (show_nat c)))
          in if n \<le> 21 then show_nat c
             else hd s # (if tl s = [] then [] else CHR ''.'' # tl s)
                  @ ''e+'' @ show_nat (n - 1))"

text \<open>
  A value of \<^verbatim>\<open>Math.random()\<close> is a double in \<open>[0, 1)\<close>. These doubles are exactly
  the fractions \<open>mantissa / 2 ^ binary_places\<close> with a mantissa below \<open>2 ^ 53\<close>, at
  most 1074 binary places and a value below 1. The product of such a double with a
  natural \<open>n\<close> below \<open>2 ^ 53\<close> (array lengths are below \<open>2 ^ 32\<close>) is the exact product
  rounded to 53 significant bits; in units of \<open>1 / 2 ^ binary_places\<close> the exact product is
  the natural \<open>mantissa * n\<close>.
\<close>

record unit_double =
  mantissa :: nat
  binary_places :: nat

definition is_unit_double :: "unit_double \<Rightarrow> bool" where
  "is_unit_double u =
     (mantissa u < 2 ^ 53 \<and> binary_places u \<le> 1074 \<and> mantissa u < 2 ^ binary_places u)"

definition Math_floor_times :: "unit_double \<Rightarrow> nat \<Rightarrow> nat" where
  \<comment> \<open>\<^verbatim>\<open>Math.floor(u * n)\<close>\<close>
  "Math_floor_times u n = round_to_53_bits (mantissa u * n) div 2 ^ binary_places u"

section \<open>Parsing folder and file names (lines 117 to 156 of server.js)\<close>

definition album_name_artist :: "string \<Rightarrow> string \<times> string" where
  \<comment> \<open>lines 118 to 125; \<open>albumParts\<close> has two elements or more when the test holds
      (\<open>split_first_two\<close> below), so both reads are in range\<close>
  "album_name_artist albumInfo =
     (if str_includes albumInfo '' - ''
      then let albumParts = split albumInfo '' - ''
           in (trim (albumParts ! 0), trim (albumParts ! 1))
      else (albumInfo, ''Unknown Artist''))"

fun match_rest :: "nat \<Rightarrow> string \<Rightarrow> string option" where
  \<comment> \<open>\<^verbatim>\<open>\s*(.+)\<close> at the start of \<open>r\<close>, the \<^verbatim>\<open>\s*\<close> holding \<open>k\<close>
      characters: the group takes every character up to the next line terminator; when
      that is nothing, the \<^verbatim>\<open>\s*\<close> gives one character back and the group is tried
      again\<close>
  "match_rest 0 r =
     (let g = takeWhile (\<lambda>c. \<not> is_line_terminator c) r
      in if g \<noteq> [] then Some g else None)"
| "match_rest (Suc k) r =
     (let g = takeWhile (\<lambda>c. \<not> is_line_terminator c) (drop (Suc k) r)
      in if g \<noteq> [] then Some g else match_rest k r)"

definition trackMatch :: "string \<Rightarrow> (string \<times> string) option" where
  \<comment> \<open>\<^verbatim>\<open>trackFileName.match(/^(\d+)\s*-\s*(.+)/)\<close>: the two groups of the match.
      \<^verbatim>\<open>\d+\<close> and the first \<^verbatim>\<open>\s*\<close> take their whole run: a shorter one
      leaves a digit or a space where the hyphen has to be.\<close>
  "trackMatch trackFileName =
     (let ds = takeWhile is_digit trackFileName;
          r1 = dropWhile is_space (dropWhile is_digit trackFileName)
      in if ds = [] then None
         else case r1 of
                [] \<Rightarrow> None
              | c # r2 \<Rightarrow>
                  if c \<noteq> CHR ''-'' then None
                  else map_option (Pair ds) (match_rest (length (takeWhile is_space r2)) r2))"

fun strip_extension :: "string \<Rightarrow> string" where
  \<comment> \<open>\<^verbatim>\<open>trackName.replace(/\.[^/.]+$/, "")\<close>: the leftmost dot that has at least one
      character behind it and neither a slash nor a dot up to the end is cut off with
      what follows it\<close>
  "strip_extension [] = []"
| "strip_extension (c # cs) =
     (if c = CHR ''.'' \<and> cs \<noteq> [] \<and> list_all (\<lambda>x. x \<noteq> CHR ''/'' \<and> x \<noteq> CHR ''.'') cs
      then [] else c # strip_extension cs)"

definition track_number_name :: "string \<Rightarrow> number \<times> string" where
  \<comment> \<open>lines 128 to 139: \<open>trackNumber\<close> and the final \<open>trackName\<close>\<close>
  "track_number_name trackFileName =
     (let (trackNumber, trackName) =
            (case trackMatch trackFileName of
               None \<Rightarrow> (0, trackFileName)
             | Some (ds, g) \<Rightarrow> (parseInt ds, trim g))
      in (trackNumber, strip_extension trackName))"

definition is_cover :: "string \<Rightarrow> bool" where
  \<comment> \<open>the test of lines 152 and 153\<close>
  "is_cover trackFileName =
     (str_includes (toLowerCase trackFileName) ''cover''
      \<or> str_includes (toLowerCase trackFileName) ''.jpg''
      \<or> str_includes (toLowerCase trackFileName) ''.jpeg''
      \<or> str_includes (toLowerCase trackFileName) ''.png'')"

section \<open>The process environment and its collaborators\<close>

record js_error =
  code :: "string option"
  message :: string

record list_params =
  Bucket :: string
  Prefix :: string
  MaxKeys :: nat

text \<open>
  What the handler reads from outside: the environment variables (\<open>None\<close> when a
  variable is not set), the clock and the random source (the value of the \<open>k\<close>-th call;
  \<^verbatim>\<open>Date.now()\<close> is a number of milliseconds, an integer far below \<open>2 ^ 53\<close>, and
  \<^verbatim>\<open>Math.random()\<close> is a double in \<open>[0, 1)\<close>), the storage service, which answers a
  listing request with an error or with the keys of \<^verbatim>\<open>data.Contents\<close> in order,
  and one fact about the process: whether an earlier request has left a property
  \<^verbatim>\<open>coverUrl\<close> on \<^verbatim>\<open>Object.prototype\<close> (see \<open>group_item\<close>).
\<close>

record env =
  AWS_ACCESS_KEY_ID :: "string option"
  AWS_SECRET_ACCESS_KEY :: "string option"
  env_S3_FOLDER_PATH :: "string option"
  env_S3_BUCKET_NAME :: "string option"
  CLOUDFRONT_DOMAIN :: "string option"
  Date_now :: "nat \<Rightarrow> nat"
  Math_random :: "nat \<Rightarrow> unit_double"
  listObjectsV2 :: "list_params \<Rightarrow> js_error + string list"
  Object_prototype_coverUrl :: bool

definition falsy :: "string option \<Rightarrow> bool" where
  \<comment> \<open>\<^verbatim>\<open>!v\<close> for a value that is a string or undefined\<close>
  "falsy v = (v = None \<or> v = Some [])"

definition or_default :: "string option \<Rightarrow> string \<Rightarrow> string" where
  \<comment> \<open>\<^verbatim>\<open>v || d\<close>\<close>
  "or_default v d = (if falsy v then d else the v)"

definition S3_FOLDER_PATH :: "env \<Rightarrow> string" where
  "S3_FOLDER_PATH e = or_default (env_S3_FOLDER_PATH e) ''lofi stations/''"

definition S3_BUCKET_NAME :: "env \<Rightarrow> string" where
  "S3_BUCKET_NAME e = or_default (env_S3_BUCKET_NAME e) ''lowfi-records''"

definition verifyAwsCredentials :: "env \<Rightarrow> bool" where
  "verifyAwsCredentials e =
     (if falsy (AWS_ACCESS_KEY_ID e) \<or> falsy (AWS_SECRET_ACCESS_KEY e) then False else True)"

definition credentialsVerified :: "env \<Rightarrow> bool" where
  "credentialsVerified e = verifyAwsCredentials e"

definition resolve_url :: "env \<Rightarrow> string \<Rightarrow> string" where
  \<comment> \<open>the template literal of lines 154 and 167; an unset variable prints as
      \<^verbatim>\<open>undefined\<close>\<close>
  "resolve_url e Key =
     (case CLOUDFRONT_DOMAIN e of None \<Rightarrow> ''undefined'' | Some d \<Rightarrow> d) @ Key"

section \<open>Albums, tracks and the grouping object\<close>

record track =
  trackId :: string
  name :: string
  url :: string
  order :: number

record album =
  albumName :: string
  artist :: string
  tracks :: "track list"
  coverUrl :: "string option"

text \<open>
  \<open>albumMap\<close> is a plain object. Its own properties are kept as an association list in
  the order of their creation. Reading a property that is not its own goes on to
  \<^verbatim>\<open>Object.prototype\<close>, whose twelve properties are all truthy. The code can add a
  thirteenth: for the folder name \<^verbatim>\<open>__proto__\<close> the expression
  \<^verbatim>\<open>albumMap[albumInfo]\<close> is \<^verbatim>\<open>Object.prototype\<close> itself, and line 154 then
  writes its property \<^verbatim>\<open>coverUrl\<close>, a string that is not empty. So the names found on
  the prototype are part of the state.
\<close>

definition object_prototype_names :: "string list" where
  "object_prototype_names =
     [''constructor'', ''__defineGetter__'', ''__defineSetter__'', ''hasOwnProperty'',
      ''__lookupGetter__'', ''__lookupSetter__'', ''isPrototypeOf'',
      ''propertyIsEnumerable'', ''toString'', ''valueOf'', ''__proto__'',
      ''toLocaleString'']"

definition inherited_names :: "env \<Rightarrow> string list" where
  \<comment> \<open>the property names of \<^verbatim>\<open>Object.prototype\<close> when the request starts\<close>
  "inherited_names e =
     object_prototype_names @ (if Object_prototype_coverUrl e then [''coverUrl''] else [])"

datatype property = Undefined | Own album | Inherited

record state =
  albumMap :: "(string \<times> album) list"
  clock_calls :: nat
  random_calls :: nat
  prototype_names :: "string list"

definition get_property :: "state \<Rightarrow> string \<Rightarrow> property" where
  \<comment> \<open>\<^verbatim>\<open>albumMap[albumInfo]\<close>\<close>
  "get_property st k =
     (case map_of (albumMap st) k of
        Some a \<Rightarrow> Own a
      | None \<Rightarrow> if k \<in> set (prototype_names st) then Inherited else Undefined)"

definition TypeError_push :: js_error where
  \<comment> \<open>reading \<^verbatim>\<open>push\<close> of \<^verbatim>\<open>undefined\<close>; the text is the one of V8\<close>
  "TypeError_push =
     \<lparr>code = None, message = ''Cannot read properties of undefined (reading 'push')''\<rparr>"

definition TypeError_set :: js_error where
  "TypeError_set =
     \<lparr>code = None, message = ''Cannot set properties of undefined (setting 'coverUrl')''\<rparr>"

section \<open>The grouping loop (lines 103 to 170)\<close>

definition item_parts :: "env \<Rightarrow> string \<Rightarrow> (string \<times> string) option" where
  \<comment> \<open>lines 105 to 115: \<open>None\<close> for a key that the callback returns on at once, otherwise
      \<open>albumInfo\<close> and \<open>trackFileName\<close>\<close>
  "item_parts e Key =
     (if Key = S3_FOLDER_PATH e then None
      else let relativePath = replace_first (S3_FOLDER_PATH e) Key;
               parts = split relativePath ''/''
           in if length parts < 2 then None else Some (parts ! 0, parts ! 1))"

definition unique_id :: "env \<Rightarrow> state \<Rightarrow> string \<Rightarrow> number \<Rightarrow> string" where
  \<comment> \<open>lines 159 to 161; \<open>timestamp\<close> and \<open>random\<close> are integers below \<open>2 ^ 53\<close>, which
      print with all their digits\<close>
  "unique_id e st albumInfo trackNumber =
     (let timestamp = Date_now e (clock_calls st);
          random = Math_floor_times (Math_random e (random_calls st)) 10000
      in show_nat timestamp @ ''-'' @ show_nat random @ ''-''
         @ map (\<lambda>c. if is_space c then CHR ''-'' else c) albumInfo
         @ ''-'' @ Number_toString trackNumber)"

definition group_item :: "env \<Rightarrow> string \<Rightarrow> string \<Rightarrow> string \<Rightarrow> state \<Rightarrow> js_error + state" where
  \<comment> \<open>lines 117 to 169, for a key that was not skipped. A write to the \<open>coverUrl\<close> of an
      inherited value lands on that value: on \<^verbatim>\<open>Object.prototype\<close> for
      \<^verbatim>\<open>__proto__\<close>, on a function or (without effect) on a string otherwise. Reading
      \<^verbatim>\<open>tracks\<close> of an inherited value gives \<^verbatim>\<open>undefined\<close>, and \<^verbatim>\<open>push\<close>
      throws.\<close>
  "group_item e Key albumInfo trackFileName st =
     (let (albumName, artist) = album_name_artist albumInfo;
          (trackNumber, trackName) = track_number_name trackFileName;
          st1 = (if get_property st albumInfo = Undefined
                 then st\<lparr>albumMap := albumMap st @
                        [(albumInfo, \<lparr>albumName = albumName, artist = artist,
                                      tracks = [], coverUrl = None\<rparr>)]\<rparr>
                 else st)
      in if is_cover trackFileName
         then (case get_property st1 albumInfo of
                 Own a \<Rightarrow>
                   Inr (st1\<lparr>albumMap := AList.map_entry albumInfo
                              (\<lambda>a. a\<lparr>coverUrl := Some (resolve_url e Key)\<rparr>) (albumMap st1)\<rparr>)
               | Inherited \<Rightarrow>
                   Inr (if albumInfo = ''__proto__''
                        then st1\<lparr>prototype_names :=
                               List.insert ''coverUrl'' (prototype_names st1)\<rparr>
                        else st1)
               | Undefined \<Rightarrow> Inl TypeError_set)
         else let uniqueId = unique_id e st1 albumInfo trackNumber;
                  st2 = st1\<lparr>clock_calls := Suc (clock_calls st1),
                            random_calls := Suc (random_calls st1)\<rparr>
              in (case get_property st2 albumInfo of
                    Own a \<Rightarrow>
                      Inr (st2\<lparr>albumMap := AList.map_entry albumInfo
                                 (\<lambda>a. a\<lparr>tracks := tracks a @
                                    [\<lparr>trackId = uniqueId, name = trackName,
                                      url = resolve_url e Key, order = trackNumber\<rparr>]\<rparr>)
                                 (albumMap st2)\<rparr>)
                  | Inherited \<Rightarrow> Inl TypeError_push
                  | Undefined \<Rightarrow> Inl TypeError_push))"

definition new_album :: "string \<Rightarrow> album" where
  \<comment> \<open>the entry of lines 143 to 148\<close>
  "new_album albumInfo =
     \<lparr>albumName = fst (album_name_artist albumInfo), artist = snd (album_name_artist albumInfo),
      tracks = [], coverUrl = None\<rparr>"

definition new_track :: "env \<Rightarrow> state \<Rightarrow> string \<Rightarrow> string \<Rightarrow> string \<Rightarrow> track" where
  \<comment> \<open>the object pushed in lines 164 to 169\<close>
  "new_track e st Key albumInfo trackFileName =
     \<lparr>trackId = unique_id e st albumInfo (fst (track_number_name trackFileName)),
      name = snd (track_number_name trackFileName), url = resolve_url e Key,
      order = fst (track_number_name trackFileName)\<rparr>"

definition process_item :: "env \<Rightarrow> string \<Rightarrow> state \<Rightarrow> js_error + state" where
  \<comment> \<open>the callback of \<^verbatim>\<open>data.Contents.forEach\<close>\<close>
  "process_item e Key st =
     (case item_parts e Key of
        None \<Rightarrow> Inr st
      | Some (albumInfo, trackFileName) \<Rightarrow> group_item e Key albumInfo trackFileName st)"

fun forEach :: "('a \<Rightarrow> 's \<Rightarrow> js_error + 's) \<Rightarrow> 'a list \<Rightarrow> 's \<Rightarrow> js_error + 's" where
  \<comment> \<open>an exception thrown by the callback ends the loop\<close>
  "forEach f [] st = Inr st"
| "forEach f (x # xs) st = (case f x st of Inl err \<Rightarrow> Inl err | Inr st' \<Rightarrow> forEach f xs st')"

definition initial_state :: "env \<Rightarrow> state" where
  \<comment> \<open>the state in which the grouping loop starts\<close>
  "initial_state e =
     \<lparr>albumMap = [], clock_calls = 0, random_calls = 0, prototype_names = inherited_names e\<rparr>"

definition group_albums :: "env \<Rightarrow> string list \<Rightarrow> js_error + state" where
  "group_albums e Contents =
     forEach (process_item e) Contents (initial_state e)"

section \<open>The presentation (lines 173 to 195)\<close>

definition array_index :: "string \<Rightarrow> nat option" where
  \<comment> \<open>the property names that are array indices: the canonical decimal strings of the
      numbers below \<open>2 ^ 32 - 1\<close>\<close>
  "array_index k =
     (if k \<noteq> [] \<and> list_all is_digit k \<and> (k = ''0'' \<or> hd k \<noteq> CHR ''0'')
         \<and> decimal_value 0 k < 2 ^ 32 - 1
      then Some (decimal_value 0 k) else None)"

definition Object_values :: "(string \<times> album) list \<Rightarrow> album list" where
  \<comment> \<open>\<^verbatim>\<open>Object.values\<close>: the array indices first, in ascending numeric order, then
      the other names in the order of their creation\<close>
  "Object_values m =
     map snd (sort_key (\<lambda>p. the (array_index (fst p)))
                (filter (\<lambda>p. array_index (fst p) \<noteq> None) m)
              @ filter (\<lambda>p. array_index (fst p) = None) m)"

definition swap :: "nat \<Rightarrow> nat \<Rightarrow> 'a list \<Rightarrow> 'a list" where
  \<comment> \<open>line 186: both right-hand sides are read before the two writes\<close>
  "swap i j xs = xs[i := xs ! j, j := xs ! i]"

fun shuffle :: "env \<Rightarrow> nat \<Rightarrow> nat \<Rightarrow> nat list \<Rightarrow> nat list \<times> nat" where
  \<comment> \<open>the loop of lines 184 to 187 from index \<open>i\<close> downwards, after \<open>r\<close> calls of
      \<^verbatim>\<open>Math.random\<close>; it stops at \<open>i = 0\<close>. It is entered with \<open>i = length xs - 1\<close>,
      and on the empty array, where JavaScript starts at \<open>-1\<close>, the body never runs
      either.\<close>
  "shuffle e r 0 xs = (xs, r)"
| "shuffle e r (Suc i) xs =
     (let j = Math_floor_times (Math_random e r) (Suc i + 1)
      in shuffle e (Suc r) i (swap (Suc i) j xs))"

fun shuffle_draws :: "nat \<Rightarrow> nat list \<Rightarrow> 'a list \<Rightarrow> 'a list" where
  \<comment> \<open>the same loop with the draws \<open>j\<close> handed in, the one for the largest \<open>i\<close> first\<close>
  "shuffle_draws 0 js xs = xs"
| "shuffle_draws (Suc i) [] xs = xs"
| "shuffle_draws (Suc i) (j # js) xs = shuffle_draws i js (swap (Suc i) j xs)"

fun valid_draws :: "nat \<Rightarrow> nat list \<Rightarrow> bool" where
  \<comment> \<open>one draw for each \<open>i\<close> from the start index down to 1, each in \<open>[0, i]\<close>\<close>
  "valid_draws 0 js = (js = [])"
| "valid_draws (Suc i) [] = False"
| "valid_draws (Suc i) (j # js) = (j \<le> Suc i \<and> valid_draws i js)"

fun draws :: "env \<Rightarrow> nat \<Rightarrow> nat \<Rightarrow> nat list" where
  \<comment> \<open>the values of \<open>j\<close> that the loop computes when it is entered at index \<open>i\<close> after
      \<open>r\<close> calls of \<^verbatim>\<open>Math.random\<close>\<close>
  "draws e r 0 = []"
| "draws e r (Suc i) = Math_floor_times (Math_random e r) (Suc i + 1) # draws e (Suc r) i"

definition random_ok :: "env \<Rightarrow> bool" where
  \<comment> \<open>the contract of \<^verbatim>\<open>Math.random\<close>: every value is a double in \<open>[0, 1)\<close>\<close>
  "random_ok e = (\<forall>k. is_unit_double (Math_random e k))"

definition present_album :: "env \<Rightarrow> nat \<Rightarrow> album \<Rightarrow> album \<times> nat" where
  \<comment> \<open>the callback of \<^verbatim>\<open>Object.values(albumMap).map\<close>; the comparator
      \<^verbatim>\<open>a.order - b.order\<close> makes \<^verbatim>\<open>sort\<close> the stable ascending sort by \<open>order\<close>
      (the language asks for a stable sort since ES2019)\<close>
  "present_album e r a =
     (let sorted = sort_key order (tracks a);
          trackCount = length sorted;
          availablePositions = [0..<trackCount];
          (shuffled, r') = shuffle e r (length availablePositions - 1) availablePositions
      in (a\<lparr>tracks := map (\<lambda>index. (sorted ! index)\<lparr>order := enat (shuffled ! index)\<rparr>)
                          [0..<length sorted]\<rparr>, r'))"

fun map_present :: "env \<Rightarrow> nat \<Rightarrow> album list \<Rightarrow> album list" where
  "map_present e r [] = []"
| "map_present e r (a # as) =
     (let (a', r') = present_album e r a in a' # map_present e r' as)"

definition formattedAlbums :: "env \<Rightarrow> state \<Rightarrow> album list" where
  "formattedAlbums e st = map_present e (random_calls st) (Object_values (albumMap st))"

section \<open>Responses and the handler\<close>

datatype json =
  JNull | JBool bool | JNum nat | JStr string | JArr "json list" | JObj "(string \<times> json) list"

record response =
  status :: nat
  body :: json

definition track_json :: "track \<Rightarrow> json" where
  \<comment> \<open>an infinite Number is \<^verbatim>\<open>null\<close> in JSON\<close>
  "track_json t =
     JObj [(''trackId'', JStr (trackId t)), (''name'', JStr (name t)),
           (''url'', JStr (url t)),
           (''order'', (case order t of enat n \<Rightarrow> JNum n | \<infinity> \<Rightarrow> JNull))]"

definition album_json :: "album \<Rightarrow> json" where
  "album_json a =
     JObj [(''albumName'', JStr (albumName a)), (''artist'', JStr (artist a)),
           (''tracks'', JArr (map track_json (tracks a))),
           (''coverUrl'', (case coverUrl a of None \<Rightarrow> JNull | Some u \<Rightarrow> JStr u))]"

definition success_body :: "album list \<Rightarrow> json" where
  \<comment> \<open>lines 197 to 201\<close>
  "success_body albums =
     JObj [(''success'', JBool True), (''albums'', JArr (map album_json albums)),
           (''count'', JNum (length albums))]"

definition quoted :: "string \<Rightarrow> string" where
  \<comment> \<open>a name between two apostrophes\<close>
  "quoted s = [CHR 0x27] @ s @ [CHR 0x27]"

definition handleS3Error :: "env \<Rightarrow> js_error \<Rightarrow> response" where
  \<comment> \<open>a property whose value is undefined is left out of the JSON text\<close>
  "handleS3Error e err =
     (if code err = Some ''NoSuchBucket''
      then \<lparr>status = 404, body = JObj [(''success'', JBool False),
              (''error'', JStr (''Bucket '' @ quoted (S3_BUCKET_NAME e) @ '' does not exist.''))]\<rparr>
      else if code err = Some ''AccessDenied''
      then \<lparr>status = 403, body = JObj [(''success'', JBool False),
              (''error'', JStr (''Access denied to bucket '' @ quoted (S3_BUCKET_NAME e)
                  @ ''. Check your IAM permissions.''))]\<rparr>
      else if code err = Some ''CredentialsError''
      then \<lparr>status = 401, body = JObj [(''success'', JBool False),
              (''error'', JStr ''Invalid AWS credentials. Please check your Access Key and Secret Access Key.'')]\<rparr>
      else if code err = Some ''NetworkingError''
      then \<lparr>status = 503, body = JObj [(''success'', JBool False),
              (''error'', JStr ''Network error while connecting to AWS. Please check your internet connection.'')]\<rparr>
      else \<lparr>status = 500, body = JObj ([(''success'', JBool False),
              (''error'', JStr (message err))]
              @ (case code err of None \<Rightarrow> [] | Some c \<Rightarrow> [(''code'', JStr c)]))\<rparr>)"

definition listing_request :: "env \<Rightarrow> list_params" where
  \<comment> \<open>\<open>params\<close> of lines 91 to 95\<close>
  "listing_request e =
     \<lparr>Bucket = S3_BUCKET_NAME e, Prefix = S3_FOLDER_PATH e, MaxKeys = 1000\<rparr>"

definition get_albums :: "env \<Rightarrow> response \<times> list_params list" where
  \<comment> \<open>\<^verbatim>\<open>GET /albums\<close>: the response, and the listing requests sent to the storage
      service on the way\<close>
  "get_albums e =
     (if \<not> credentialsVerified e
      then (\<lparr>status = 500, body = JObj [(''success'', JBool False),
              (''error'', JStr ''AWS credentials are not properly configured. Check server logs for details.'')]\<rparr>,
            [])
      else let params = listing_request e
           in (case listObjectsV2 e params of
                 Inl err \<Rightarrow> (handleS3Error e err, [params])
               | Inr Contents \<Rightarrow>
                   (case group_albums e Contents of
                      Inl err \<Rightarrow> (handleS3Error e err, [params])
                    | Inr st \<Rightarrow>
                        (\<lparr>status = 200, body = success_body (formattedAlbums e st)\<rparr>,
                         [params]))))"

definition json_field :: "json \<Rightarrow> string \<Rightarrow> json option" where
  \<comment> \<open>the value of a field of a JSON object, \<open>None\<close> when the object has no such field\<close>
  "json_field j k = (case j of JObj fs \<Rightarrow> map_of fs k | _ \<Rightarrow> None)"

section \<open>Notions used in the statements\<close>

fun before_first :: "string \<Rightarrow> string \<Rightarrow> string" where
  \<comment> \<open>the text of \<open>s\<close> in front of the first occurrence of \<open>sep\<close>; all of \<open>s\<close> when
      there is none\<close>
  "before_first sep [] = []"
| "before_first sep (c # cs) = (if prefix sep (c # cs) then [] else c # before_first sep cs)"

fun after_first :: "string \<Rightarrow> string \<Rightarrow> string" where
  \<comment> \<open>the text of \<open>s\<close> behind the first occurrence of \<open>sep\<close>\<close>
  "after_first sep [] = []"
| "after_first sep (c # cs) =
     (if prefix sep (c # cs) then drop (length sep) (c # cs) else after_first sep cs)"

definition claimed_album_name_artist :: "string \<Rightarrow> string \<times> string" where
  \<comment> \<open>the extraction as the specification words it: the artist is everything behind the
      first separator\<close>
  "claimed_album_name_artist albumInfo =
     (if str_includes albumInfo '' - ''
      then (trim (before_first '' - '' albumInfo), trim (after_first '' - '' albumInfo))
      else (albumInfo, ''Unknown Artist''))"


definition real_of_unit :: "unit_double \<Rightarrow> real" where
  \<comment> \<open>the real number that a value of \<^verbatim>\<open>Math.random()\<close> is\<close>
  "real_of_unit u = real (mantissa u) / 2 ^ binary_places u"




definition folder_items :: "env \<Rightarrow> string list \<Rightarrow> string \<Rightarrow> (string \<times> string) list" where
  \<comment> \<open>the keys of a listing that lie in the folder \<open>a\<close>, each with its file name, in
      listing order\<close>
  "folder_items e Contents a =
     map (\<lambda>Key. (Key, snd (the (item_parts e Key))))
       (filter (\<lambda>Key. map_option fst (item_parts e Key) = Some a) Contents)"

definition folder_names :: "env \<Rightarrow> string list \<Rightarrow> string list" where
  \<comment> \<open>the folder name of every key that is not skipped, in listing order\<close>
  "folder_names e Contents =
     map (\<lambda>Key. fst (the (item_parts e Key))) (filter (\<lambda>Key. item_parts e Key \<noteq> None) Contents)"

definition first_seen :: "'a list \<Rightarrow> 'a list" where
  \<comment> \<open>the elements of a list without repetition, each at its first occurrence\<close>
  "first_seen xs = rev (remdups (rev xs))"

definition js_key_order :: "string list \<Rightarrow> string list" where
  \<comment> \<open>the order in which an object with these property names, created in this order,
      enumerates them\<close>
  "js_key_order ks =
     sort_key (\<lambda>k. the (array_index k)) (filter (\<lambda>k. array_index k \<noteq> None) ks)
     @ filter (\<lambda>k. array_index k = None) ks"

definition album_folders :: "env \<Rightarrow> string list \<Rightarrow> string list" where
  \<comment> \<open>the folder names under which the entries of \<open>albumMap\<close> stand after a listing, in
      the order in which the response presents them\<close>
  "album_folders e Contents =
     (case group_albums e Contents of
        Inl err \<Rightarrow> []
      | Inr st \<Rightarrow> js_key_order (map fst (albumMap st)))"

definition cover_of :: "env \<Rightarrow> (string \<times> string) list \<Rightarrow> string option" where
  \<comment> \<open>the resolved key of the last cover among the items of a folder\<close>
  "cover_of e items =
     (let covers = filter (\<lambda>p. is_cover (snd p)) items
      in if covers = [] then None else Some (resolve_url e (fst (last covers))))"

definition parsed_tracks ::
  "env \<Rightarrow> (string \<times> string) list \<Rightarrow> (number \<times> string \<times> string) list" where
  \<comment> \<open>parsed number, display name and resolved key of every item that is no cover, in
      listing order\<close>
  "parsed_tracks e items =
     map (\<lambda>p. (fst (track_number_name (snd p)), snd (track_number_name (snd p)),
               resolve_url e (fst p)))
       (filter (\<lambda>p. \<not> is_cover (snd p)) items)"

definition track_view :: "track \<Rightarrow> number \<times> string \<times> string" where
  "track_view t = (order t, name t, url t)"

definition album_view :: "album \<Rightarrow> string \<times> string \<times> string option \<times> (string \<times> string) list" where
  \<comment> \<open>an album without the identifiers and the order values of its tracks\<close>
  "album_view a =
     (albumName a, artist a, coverUrl a, map (\<lambda>t. (name t, url t)) (tracks a))"

definition expected_view ::
  "env \<Rightarrow> string list \<Rightarrow> string \<Rightarrow> string \<times> string \<times> string option \<times> (string \<times> string) list" where
  \<comment> \<open>what the response shows of the folder \<open>a\<close> of a listing\<close>
  "expected_view e Contents a =
     (fst (album_name_artist a), snd (album_name_artist a),
      cover_of e (folder_items e Contents a),
      map snd (sort_key fst (parsed_tracks e (folder_items e Contents a))))"

definition album_agrees :: "env \<Rightarrow> string \<Rightarrow> (string \<times> string) list \<Rightarrow> album \<Rightarrow> bool" where
  \<comment> \<open>the entry of the folder \<open>a\<close> holds what the items of that folder say\<close>
  "album_agrees e a items alb =
     (albumName alb = fst (album_name_artist a)
      \<and> artist alb = snd (album_name_artist a)
      \<and> coverUrl alb = cover_of e items
      \<and> map track_view (tracks alb) = parsed_tracks e items)"

definition grouped :: "env \<Rightarrow> string list \<Rightarrow> state \<Rightarrow> bool" where
  \<comment> \<open>the state of the grouping loop agrees with the listing consumed so far: the entries
      stand in the order in which their folders were first seen, every folder seen has an
      entry unless its name is found on the prototype, the prototype has lost no name and
      has gained none without a folder \<^verbatim>\<open>__proto__\<close>, and every entry holds what the
      items of its folder say\<close>
  "grouped e Contents st =
     (map fst (albumMap st)
        = first_seen (filter (\<lambda>a. a \<in> fst ` set (albumMap st)) (folder_names e Contents))
      \<and> (\<forall>a\<in>set (folder_names e Contents).
            a \<notin> set (prototype_names st) \<longrightarrow> a \<in> fst ` set (albumMap st))
      \<and> set (inherited_names e) \<subseteq> set (prototype_names st)
      \<and> (''__proto__'' \<notin> set (folder_names e Contents) \<longrightarrow>
            prototype_names st = inherited_names e)
      \<and> (\<forall>a alb. map_of (albumMap st) a = Some alb \<longrightarrow>
            album_agrees e a (folder_items e Contents a) alb))"

section \<open>A deployment for the examples\<close>

definition example_env :: "(list_params \<Rightarrow> js_error + string list) \<Rightarrow> env" where
  \<comment> \<open>credentials set, prefix \<^verbatim>\<open>p/\<close>, the default bucket, a clock that advances by
      one at each call, a random source that always returns one half, the prototype
      untouched\<close>
  "example_env s3 =
     \<lparr>AWS_ACCESS_KEY_ID = Some ''AKIA'', AWS_SECRET_ACCESS_KEY = Some ''secret'',
      env_S3_FOLDER_PATH = Some ''p/'', env_S3_BUCKET_NAME = None,
      CLOUDFRONT_DOMAIN = Some ''https://cdn/'',
      Date_now = (\<lambda>k. 1700000000000 + k),
      Math_random = (\<lambda>k. \<lparr>mantissa = 1, binary_places = 1\<rparr>),
      listObjectsV2 = s3, Object_prototype_coverUrl = False\<rparr>"

definition seven_tenths :: unit_double where
  \<comment> \<open>the double nearest to 0.7, the value of the literal \<^verbatim>\<open>0.7\<close>; it lies below
      7 / 10\<close>
  "seven_tenths = \<lparr>mantissa = 6305039478318694, binary_places = 53\<rparr>"

definition example_keys :: "string list" where
  \<comment> \<open>a listing of one folder with three tracks, out of numeric order\<close>
  "example_keys = [''p/A/2 - b.mp3'', ''p/A/1 - a.mp3'', ''p/A/c.mp3'']"

definition example_state :: state where
  \<comment> \<open>the state of the grouping loop after \<open>example_keys\<close>\<close>
  "example_state =
     \<lparr>albumMap = [(''A'', \<lparr>albumName = ''A'', artist = ''Unknown Artist'', tracks =
        [\<lparr>trackId = ''1700000000000-5000-A-2'', name = ''b'',
            url = ''https://cdn/p/A/2 - b.mp3'', order = 2\<rparr>,
         \<lparr>trackId = ''1700000000001-5000-A-1'', name = ''a'',
            url = ''https://cdn/p/A/1 - a.mp3'', order = 1\<rparr>,
         \<lparr>trackId = ''1700000000002-5000-A-0'', name = ''c'',
            url = ''https://cdn/p/A/c.mp3'', order = 0\<rparr>],
        coverUrl = None\<rparr>)],
      clock_calls = 3, random_calls = 3, prototype_names = object_prototype_names\<rparr>"

definition example_album :: album where
  \<comment> \<open>the album that the response to \<open>example_keys\<close> holds\<close>
  "example_album =
     \<lparr>albumName = ''A'', artist = ''Unknown Artist'', tracks =
        [\<lparr>trackId = ''1700000000002-5000-A-0'', name = ''c'',
            url = ''https://cdn/p/A/c.mp3'', order = 0\<rparr>,
         \<lparr>trackId = ''1700000000001-5000-A-1'', name = ''a'',
            url = ''https://cdn/p/A/1 - a.mp3'', order = 2\<rparr>,
         \<lparr>trackId = ''1700000000000-5000-A-2'', name = ''b'',
            url = ''https://cdn/p/A/2 - b.mp3'', order = 1\<rparr>],
        coverUrl = None\<rparr>"

definition marker_keys :: "string list" where
  \<comment> \<open>a listing that holds only the marker of a folder named \<^verbatim>\<open>constructor\<close>\<close>
  "marker_keys = [''p/constructor/'']"

definition index_keys :: "string list" where
  \<comment> \<open>a listing of two folders whose names are array indices, in the order in which
      the storage service lists them\<close>
  "index_keys = [''p/10/a.mp3'', ''p/9/b.mp3'']"

definition index_state :: state where
  \<comment> \<open>the state of the grouping loop after \<open>index_keys\<close>\<close>
  "index_state =
     \<lparr>albumMap =
        [(''10'', \<lparr>albumName = ''10'', artist = ''Unknown Artist'', tracks =
            [\<lparr>trackId = ''1700000000000-5000-10-0'', name = ''a'',
                url = ''https://cdn/p/10/a.mp3'', order = 0\<rparr>],
            coverUrl = None\<rparr>),
         (''9'', \<lparr>albumName = ''9'', artist = ''Unknown Artist'', tracks =
            [\<lparr>trackId = ''1700000000001-5000-9-0'', name = ''b'',
                url = ''https://cdn/p/9/b.mp3'', order = 0\<rparr>],
            coverUrl = None\<rparr>)],
      clock_calls = 2, random_calls = 2, prototype_names = object_prototype_names\<rparr>"

definition index_albums :: "album list" where
  \<comment> \<open>the albums of the response to \<open>index_keys\<close>\<close>
  "index_albums =
     [\<lparr>albumName = ''9'', artist = ''Unknown Artist'', tracks =
         [\<lparr>trackId = ''1700000000001-5000-9-0'', name = ''b'',
             url = ''https://cdn/p/9/b.mp3'', order = 0\<rparr>],
         coverUrl = None\<rparr>,
      \<lparr>albumName = ''10'', artist = ''Unknown Artist'', tracks =
         [\<lparr>trackId = ''1700000000000-5000-10-0'', name = ''a'',
             url = ''https://cdn/p/10/a.mp3'', order = 0\<rparr>],
         coverUrl = None\<rparr>]"

definition big_keys :: "string list" where
  \<comment> \<open>a listing of one folder in which two track numbers are different naturals and
      one and the same Number\<close>
  "big_keys =
     [''p/A/9007199254740993 - a.mp3'', ''p/A/9007199254740992 - b.mp3'', ''p/A/3 - c.mp3'']"



section \<open>Rounding to 53 bits\<close>

declare bit_length.simps [simp del]

lemma bit_length_upper: "P < 2 ^ bit_length P"
proof (induction P rule: bit_length.induct)
  case (1 n)
  show ?case
  proof (cases "n = 0")
    case True
    then show ?thesis by (simp add: bit_length.simps)
  next
    case False
    with 1 have "n div 2 < 2 ^ bit_length (n div 2)" by simp
    then have "n < 2 * 2 ^ bit_length (n div 2)" by linarith
    with False show ?thesis by (simp add: bit_length.simps [of n])
  qed
qed

lemma bit_length_lower: "P \<noteq> 0 \<Longrightarrow> 2 ^ (bit_length P - 1) \<le> P"
proof (induction P rule: bit_length.induct)
  case (1 n)
  show ?case
  proof (cases "n div 2 = 0")
    case True
    with "1.prems" have "n = 1" by (auto simp: div_eq_0_iff)
    then show ?thesis by (simp add: bit_length.simps)
  next
    case False
    with 1 have ih: "2 ^ (bit_length (n div 2) - 1) \<le> n div 2" by simp
    from False have "bit_length (n div 2) \<noteq> 0" by (simp add: bit_length.simps [of "n div 2"])
    then obtain b where b: "bit_length (n div 2) = Suc b" by (cases "bit_length (n div 2)") simp_all
    with ih have "2 * 2 ^ b \<le> n" by simp
    with "1.prems" b show ?thesis by (simp add: bit_length.simps [of n])
  qed
qed

lemma bit_length_le_iff: "bit_length P \<le> b \<longleftrightarrow> P < 2 ^ b"
proof
  assume "bit_length P \<le> b"
  then have "(2::nat) ^ bit_length P \<le> 2 ^ b" by simp
  with bit_length_upper [of P] show "P < 2 ^ b" by linarith
next
  assume lt: "P < 2 ^ b"
  show "bit_length P \<le> b"
  proof (rule ccontr)
    assume "\<not> bit_length P \<le> b"
    then have "b \<le> bit_length P - 1" and "P \<noteq> 0"
      by (auto simp: bit_length.simps [of P] split: if_splits)
    then have "(2::nat) ^ b \<le> 2 ^ (bit_length P - 1)" by simp
    with bit_length_lower [of P] \<open>P \<noteq> 0\<close> lt show False by linarith
  qed
qed

lemma round_exact: "P < 2 ^ 53 \<Longrightarrow> round_to_53_bits P = P"
proof -
  assume "P < 2 ^ 53"
  then have "bit_length P - 53 = 0" by (simp add: bit_length_le_iff)
  then show ?thesis by (simp add: round_to_53_bits_def)
qed

lemma round_cases:
  fixes P :: nat
  defines "s \<equiv> bit_length P - 53"
  shows "round_to_53_bits P = (P div 2 ^ s) * 2 ^ s \<and> 2 * (P mod 2 ^ s) \<le> 2 ^ s
           \<and> (2 * (P mod 2 ^ s) = 2 ^ s \<longrightarrow> even (P div 2 ^ s))
         \<or> round_to_53_bits P = (P div 2 ^ s + 1) * 2 ^ s \<and> 2 ^ s \<le> 2 * (P mod 2 ^ s)
           \<and> (2 * (P mod 2 ^ s) = 2 ^ s \<longrightarrow> odd (P div 2 ^ s))"
  unfolding round_to_53_bits_def s_def Let_def by auto

lemma quotient_range:
  fixes P :: nat
  assumes "2 ^ 53 \<le> P"
  defines "s \<equiv> bit_length P - 53"
  shows "2 ^ 52 \<le> P div 2 ^ s" and "P div 2 ^ s < 2 ^ 53"
proof -
  from assms(1) have "\<not> bit_length P \<le> 53" by (simp add: bit_length_le_iff)
  then have b: "bit_length P = 53 + s" by (simp add: s_def)
  from assms(1) have "P \<noteq> 0" by auto
  from bit_length_lower [OF this] have "2 ^ (52 + s) \<le> P" by (simp add: b)
  then have "2 ^ 52 * 2 ^ s \<le> P" by (simp add: power_add)
  then show "2 ^ 52 \<le> P div 2 ^ s"
    by (simp add: less_eq_div_iff_mult_less_eq)
  from bit_length_upper [of P] have "P < 2 ^ 53 * 2 ^ s" by (simp add: b power_add)
  then show "P div 2 ^ s < 2 ^ 53"
    by (simp add: less_mult_imp_div_less)
qed

lemma representable_multiple:
  fixes R :: nat
  assumes "R = a * 2 ^ t" and "a < 2 ^ 53" and "2 ^ 52 * 2 ^ s \<le> R"
  shows "2 ^ s dvd R"
proof (cases "s \<le> t")
  case True
  then have "(2::nat) ^ s dvd 2 ^ t" by (simp add: le_imp_power_dvd)
  then show ?thesis by (simp add: assms(1))
next
  case False
  then have "Suc t \<le> s" by simp
  then have "53 + t \<le> 52 + s" by simp
  then have "(2::nat) ^ (53 + t) \<le> 2 ^ (52 + s)"
    by (rule power_increasing) simp
  moreover have "a * 2 ^ t < 2 ^ 53 * 2 ^ t"
    using assms(2) by (intro mult_strict_right_mono) simp_all
  ultimately have "R < 2 ^ 52 * 2 ^ s"
    unfolding assms(1) power_add by linarith
  with assms(3) show ?thesis by simp
qed


lemma neighbour_below:
  fixes P R :: nat
  assumes "R = a * 2 ^ t" and "a < 2 ^ 53" and "R \<le> P" and "2 ^ 53 \<le> P"
  defines "s \<equiv> bit_length P - 53"
  shows "R \<le> (P div 2 ^ s) * 2 ^ s"
proof (cases "2 ^ 52 * 2 ^ s \<le> R")
  case True
  then have "2 ^ s dvd R" using assms(1,2) by (intro representable_multiple)
  then obtain c where c: "R = c * 2 ^ s" by (auto simp: dvd_def mult.commute)
  with assms(3) have "c \<le> P div 2 ^ s" by (simp add: less_eq_div_iff_mult_less_eq)
  then show ?thesis unfolding c by (rule mult_le_mono1)
next
  case False
  have "2 ^ 52 \<le> P div 2 ^ s"
    using assms(4) unfolding s_def by (rule quotient_range)
  then have "2 ^ 52 * 2 ^ s \<le> (P div 2 ^ s) * 2 ^ s" by (rule mult_le_mono1)
  with False show ?thesis by linarith
qed



lemma round_above:
  fixes P R :: nat
  assumes "R = a * 2 ^ t" and "a < 2 ^ 53" and "R \<le> P"
  shows "R \<le> round_to_53_bits P"
proof (cases "P < 2 ^ 53")
  case True
  with assms(3) show ?thesis by (simp add: round_exact)
next
  case False
  define s where "s = bit_length P - 53"
  from False have "2 ^ 53 \<le> P" by simp
  from neighbour_below [OF assms this] have "R \<le> (P div 2 ^ s) * 2 ^ s"
    unfolding s_def .
  moreover have "(P div 2 ^ s) * 2 ^ s \<le> round_to_53_bits P"
    using round_cases [of P] unfolding s_def by auto
  ultimately show ?thesis by linarith
qed


lemma round_relative: "2 ^ 53 * round_to_53_bits P \<le> (2 ^ 53 + 1) * P"
proof (cases "P < 2 ^ 53")
  case True
  then show ?thesis by (simp add: round_exact)
next
  case False
  define s where "s = bit_length P - 53"
  define U :: nat where "U = 2 ^ s"
  define q where "q = P div U"
  define r where "r = P mod U"
  have P: "P = q * U + r" unfolding q_def r_def by (rule div_mult_mod_eq [symmetric])
  from False have "2 ^ 52 \<le> q" unfolding q_def U_def s_def by (intro quotient_range) simp
  then have "2 ^ 52 * U \<le> q * U" by (rule mult_le_mono1)
  with P have big: "2 ^ 52 * U \<le> P" by linarith
  from round_cases [of P]
  consider "round_to_53_bits P = q * U" | "round_to_53_bits P = (q + 1) * U" "U \<le> 2 * r"
    unfolding s_def [symmetric] q_def [symmetric] r_def [symmetric] U_def [symmetric] by blast
  then have "2 * round_to_53_bits P \<le> 2 * P + U"
  proof cases
    case 1
    with P show ?thesis by simp
  next
    case 2
    then have "2 * round_to_53_bits P = 2 * (q * U) + 2 * U" by (simp add: algebra_simps)
    with 2(2) P show ?thesis by linarith
  qed
  then have "2 ^ 52 * (2 * round_to_53_bits P) \<le> 2 ^ 52 * (2 * P + U)"
    by (rule mult_le_mono2)
  with big show ?thesis by (simp add: algebra_simps)
qed



lemma to_Number_exact: "D < 2 ^ 53 \<Longrightarrow> to_Number D = enat D"
proof -
  assume d: "D < 2 ^ 53"
  then have "D < 2 ^ 1024"
    by (rule less_le_trans) (rule power_increasing, simp_all)
  with d show ?thesis by (simp add: to_Number_def round_exact bit_length_le_iff)
qed




lemma parse_large:
  "parseInt ''9007199254740993'' = 9007199254740992"
  "parseInt ''9007199254740992'' = 9007199254740992"
  by (simp_all add: parseInt_def to_Number_def round_to_53_bits_def bit_length.simps Let_def
      numeral_eq_enat)

section \<open>Basic facts about the loop and the example deployment\<close>

lemma forEach_append:
  "forEach f (xs @ ys) st =
     (case forEach f xs st of Inl err \<Rightarrow> Inl err | Inr st' \<Rightarrow> forEach f ys st')"
  by (induction xs arbitrary: st) (auto split: sum.splits)

lemma item_parts_skip:
  "Key = S3_FOLDER_PATH e \<or> length (split (replace_first (S3_FOLDER_PATH e) Key) ''/'') < 2
   \<Longrightarrow> item_parts e Key = None"
  by (auto simp: item_parts_def Let_def)

lemma example_prefix: "S3_FOLDER_PATH (example_env s3) = ''p/''"
  by (simp add: S3_FOLDER_PATH_def example_env_def or_default_def falsy_def)

lemma example_bucket: "S3_BUCKET_NAME (example_env s3) = ''lowfi-records''"
  by (simp add: S3_BUCKET_NAME_def example_env_def or_default_def falsy_def)

lemma example_credentials: "credentialsVerified (example_env s3)"
  by (simp add: credentialsVerified_def verifyAwsCredentials_def example_env_def falsy_def)

lemma example_listing: "listObjectsV2 (example_env s3) p = s3 p"
  by (simp add: example_env_def)

lemma example_inherited: "inherited_names (example_env s3) = object_prototype_names"
  by (simp add: inherited_names_def example_env_def)

lemma example_initial:
  "initial_state (example_env s3) =
     \<lparr>albumMap = [], clock_calls = 0, random_calls = 0,
      prototype_names = object_prototype_names\<rparr>"
  by (simp add: initial_state_def example_inherited)

lemma example_random: "Math_random (example_env s3) k = \<lparr>mantissa = 1, binary_places = 1\<rparr>"
  by (simp add: example_env_def)

lemma example_url: "resolve_url (example_env s3) Key = ''https://cdn/'' @ Key"
  by (simp add: resolve_url_def example_env_def)

lemma example_random_ok: "random_ok (example_env s3)"
  by (simp add: random_ok_def example_random is_unit_double_def)

lemma half_times:
  "n < 2 ^ 53 \<Longrightarrow> Math_floor_times \<lparr>mantissa = Suc 0, binary_places = Suc 0\<rparr> n = n div 2"
  by (simp add: Math_floor_times_def round_exact)

lemma example_group: "group_albums (example_env s3) example_keys = Inr example_state"
  unfolding example_keys_def example_state_def by code_simp

lemma example_formatted: "formattedAlbums (example_env s3) example_state = [example_album]"
  by (simp add: formattedAlbums_def example_state_def example_album_def Object_values_def
      array_index_def is_digit_def present_album_def Let_def example_random half_times
      swap_def upt_rec zero_enat_def one_enat_def numeral_eq_enat)

lemma example_response:
  "get_albums (example_env (\<lambda>p. Inr example_keys))
     = (\<lparr>status = 200, body = success_body [example_album]\<rparr>,
        [listing_request (example_env (\<lambda>p. Inr example_keys))])"
  by (simp add: get_albums_def example_credentials example_listing example_group
      example_formatted)

section \<open>Skipped keys and the empty listing\<close>

text \<open>
  C9. A key that is the prefix itself, or whose relative path (the key with the prefix
  removed) splits at the slashes into fewer than two segments, leaves the state of the
  grouping loop as it is, so a listing gives the same result with the key and without it.
  When the listing returns no key at all, the response is
  \<^verbatim>\<open>{success: true, albums: [], count: 0}\<close>.
\<close>

theorem skip_rule:
  "(Key = S3_FOLDER_PATH e \<or> length (split (replace_first (S3_FOLDER_PATH e) Key) ''/'') < 2
      \<longrightarrow> process_item e Key st = Inr st
          \<and> forEach (process_item e) (xs @ Key # ys) st = forEach (process_item e) (xs @ ys) st)
   \<and> (credentialsVerified e \<and> listObjectsV2 e (listing_request e) = Inr []
      \<longrightarrow> fst (get_albums e) =
            \<lparr>status = 200,
             body = JObj [(''success'', JBool True), (''albums'', JArr []), (''count'', JNum 0)]\<rparr>)"
proof (intro conjI impI)
  assume skip: "Key = S3_FOLDER_PATH e
    \<or> length (split (replace_first (S3_FOLDER_PATH e) Key) ''/'') < 2"
  then have step: "process_item e Key s = Inr s" for s
    by (simp add: process_item_def item_parts_skip)
  show "process_item e Key st = Inr st" by (rule step)
  show "forEach (process_item e) (xs @ Key # ys) st = forEach (process_item e) (xs @ ys) st"
    by (simp add: forEach_append step split: sum.splits)
next
  assume "credentialsVerified e \<and> listObjectsV2 e (listing_request e) = Inr []"
  then show "fst (get_albums e) =
            \<lparr>status = 200,
             body = JObj [(''success'', JBool True), (''albums'', JArr []), (''count'', JNum 0)]\<rparr>"
    by (simp add: get_albums_def group_albums_def formattedAlbums_def initial_state_def
        Object_values_def success_body_def)
qed

theorem skip_rule_witness:
  "process_item (example_env (\<lambda>p. Inr [])) ''p/readme.txt''
       (initial_state (example_env (\<lambda>p. Inr [])))
     = Inr (initial_state (example_env (\<lambda>p. Inr [])))
   \<and> forEach (process_item (example_env (\<lambda>p. Inr [])))
        ([''p/A/1 - x.mp3''] @ ''p/readme.txt'' # [''p/A/y.mp3''])
        (initial_state (example_env (\<lambda>p. Inr [])))
     = forEach (process_item (example_env (\<lambda>p. Inr [])))
        ([''p/A/1 - x.mp3''] @ [''p/A/y.mp3'']) (initial_state (example_env (\<lambda>p. Inr [])))
   \<and> fst (get_albums (example_env (\<lambda>p. Inr []))) =
            \<lparr>status = 200,
             body = JObj [(''success'', JBool True), (''albums'', JArr []), (''count'', JNum 0)]\<rparr>"
proof -
  let ?e = "example_env (\<lambda>p. Inr [])"
  have a: "length (split (replace_first (S3_FOLDER_PATH ?e) ''p/readme.txt'') ''/'') < 2"
    by (simp add: example_prefix split_def)
  have b: "credentialsVerified ?e \<and> listObjectsV2 ?e (listing_request ?e) = Inr []"
    by (simp add: example_credentials example_listing)
  show ?thesis
    using skip_rule [of "''p/readme.txt''" ?e "initial_state ?e"
        "[''p/A/1 - x.mp3'']" "[''p/A/y.mp3'']"] a b
    by blast
qed

section \<open>Failure responses\<close>

lemma handleS3Error_fields:
  "json_field (body (handleS3Error e err)) ''success'' = Some (JBool False)
   \<and> json_field (body (handleS3Error e err)) ''albums'' = None
   \<and> json_field (body (handleS3Error e err)) ''count'' = None
   \<and> status (handleS3Error e err) \<in> {401, 403, 404, 500, 503}"
  by (simp add: handleS3Error_def json_field_def split: option.splits)

text \<open>
  C8. Without both credentials the response is the fixed 500 answer and no listing request
  is sent. When the listing request fails, the response is the one of \<open>handleS3Error\<close>:
  404 naming the bucket for \<^verbatim>\<open>NoSuchBucket\<close>, 403 naming the bucket for
  \<^verbatim>\<open>AccessDenied\<close>, 401 for \<^verbatim>\<open>CredentialsError\<close>, 503 for
  \<^verbatim>\<open>NetworkingError\<close>, and for any other error 500 with the message and the code of
  the error. Every response whose \<open>success\<close> is not \<open>true\<close> has \<open>success\<close> false, no
  \<open>albums\<close> field and no \<open>count\<close> field.
\<close>

theorem failure_responses:
  "(\<not> credentialsVerified e \<longrightarrow>
      get_albums e =
        (\<lparr>status = 500, body = JObj [(''success'', JBool False),
           (''error'', JStr ''AWS credentials are not properly configured. Check server logs for details.'')]\<rparr>,
         []))
   \<and> (credentialsVerified e \<and> listObjectsV2 e (listing_request e) = Inl err \<longrightarrow>
        get_albums e = (handleS3Error e err, [listing_request e]))
   \<and> (code err = Some ''NoSuchBucket'' \<longrightarrow>
        handleS3Error e err =
          \<lparr>status = 404, body = JObj [(''success'', JBool False),
             (''error'', JStr (''Bucket '' @ quoted (S3_BUCKET_NAME e) @ '' does not exist.''))]\<rparr>)
   \<and> (code err = Some ''AccessDenied'' \<longrightarrow>
        handleS3Error e err =
          \<lparr>status = 403, body = JObj [(''success'', JBool False),
             (''error'', JStr (''Access denied to bucket '' @ quoted (S3_BUCKET_NAME e)
                 @ ''. Check your IAM permissions.''))]\<rparr>)
   \<and> (code err = Some ''CredentialsError'' \<longrightarrow>
        handleS3Error e err =
          \<lparr>status = 401, body = JObj [(''success'', JBool False),
             (''error'', JStr ''Invalid AWS credentials. Please check your Access Key and Secret Access Key.'')]\<rparr>)
   \<and> (code err = Some ''NetworkingError'' \<longrightarrow>
        handleS3Error e err =
          \<lparr>status = 503, body = JObj [(''success'', JBool False),
             (''error'', JStr ''Network error while connecting to AWS. Please check your internet connection.'')]\<rparr>)
   \<and> (code err \<notin> {Some ''NoSuchBucket'', Some ''AccessDenied'', Some ''CredentialsError'',
                    Some ''NetworkingError''} \<longrightarrow>
        status (handleS3Error e err) = 500
        \<and> json_field (body (handleS3Error e err)) ''error'' = Some (JStr (message err))
        \<and> json_field (body (handleS3Error e err)) ''code'' = map_option JStr (code err))
   \<and> (json_field (body (fst (get_albums e))) ''success'' \<noteq> Some (JBool True) \<longrightarrow>
        json_field (body (fst (get_albums e))) ''success'' = Some (JBool False)
        \<and> json_field (body (fst (get_albums e))) ''albums'' = None
        \<and> json_field (body (fst (get_albums e))) ''count'' = None
        \<and> status (fst (get_albums e)) \<in> {401, 403, 404, 500, 503})"
proof (intro conjI impI)
  assume "\<not> credentialsVerified e"
  then show "get_albums e =
        (\<lparr>status = 500, body = JObj [(''success'', JBool False),
           (''error'', JStr ''AWS credentials are not properly configured. Check server logs for details.'')]\<rparr>,
         [])"
    by (simp add: get_albums_def)
next
  assume "credentialsVerified e \<and> listObjectsV2 e (listing_request e) = Inl err"
  then show "get_albums e = (handleS3Error e err, [listing_request e])"
    by (simp add: get_albums_def)
next
  assume "code err = Some ''NoSuchBucket''"
  then show "handleS3Error e err =
          \<lparr>status = 404, body = JObj [(''success'', JBool False),
             (''error'', JStr (''Bucket '' @ quoted (S3_BUCKET_NAME e) @ '' does not exist.''))]\<rparr>"
    by (simp add: handleS3Error_def)
next
  assume "code err = Some ''AccessDenied''"
  then show "handleS3Error e err =
          \<lparr>status = 403, body = JObj [(''success'', JBool False),
             (''error'', JStr (''Access denied to bucket '' @ quoted (S3_BUCKET_NAME e)
                 @ ''. Check your IAM permissions.''))]\<rparr>"
    by (simp add: handleS3Error_def)
next
  assume "code err = Some ''CredentialsError''"
  then show "handleS3Error e err =
          \<lparr>status = 401, body = JObj [(''success'', JBool False),
             (''error'', JStr ''Invalid AWS credentials. Please check your Access Key and Secret Access Key.'')]\<rparr>"
    by (simp add: handleS3Error_def)
next
  assume "code err = Some ''NetworkingError''"
  then show "handleS3Error e err =
          \<lparr>status = 503, body = JObj [(''success'', JBool False),
             (''error'', JStr ''Network error while connecting to AWS. Please check your internet connection.'')]\<rparr>"
    by (simp add: handleS3Error_def)
next
  assume other: "code err \<notin> {Some ''NoSuchBucket'', Some ''AccessDenied'',
     Some ''CredentialsError'', Some ''NetworkingError''}"
  then show "status (handleS3Error e err) = 500"
    by (simp add: handleS3Error_def)
  from other show "json_field (body (handleS3Error e err)) ''error'' = Some (JStr (message err))"
    by (simp add: handleS3Error_def json_field_def)
  from other show "json_field (body (handleS3Error e err)) ''code'' = map_option JStr (code err)"
    by (simp add: handleS3Error_def json_field_def split: option.splits)
next
  assume ns: "json_field (body (fst (get_albums e))) ''success'' \<noteq> Some (JBool True)"
  have "fst (get_albums e) = \<lparr>status = 500, body = JObj [(''success'', JBool False),
           (''error'', JStr ''AWS credentials are not properly configured. Check server logs for details.'')]\<rparr>
     \<or> (\<exists>err. fst (get_albums e) = handleS3Error e err)
     \<or> (\<exists>as. body (fst (get_albums e)) = success_body as)"
    by (auto simp: get_albums_def Let_def split: sum.splits)
  moreover have "json_field (success_body as) ''success'' = Some (JBool True)" for as
    by (simp add: success_body_def json_field_def)
  ultimately have cases: "fst (get_albums e) = \<lparr>status = 500, body = JObj [(''success'', JBool False),
           (''error'', JStr ''AWS credentials are not properly configured. Check server logs for details.'')]\<rparr>
     \<or> (\<exists>err. fst (get_albums e) = handleS3Error e err)"
    using ns by auto
  then show "json_field (body (fst (get_albums e))) ''success'' = Some (JBool False)"
    using handleS3Error_fields by (auto simp: json_field_def)
  from cases show "json_field (body (fst (get_albums e))) ''albums'' = None"
    using handleS3Error_fields by (auto simp: json_field_def)
  from cases show "json_field (body (fst (get_albums e))) ''count'' = None"
    using handleS3Error_fields by (auto simp: json_field_def)
  from cases show "status (fst (get_albums e)) \<in> {401, 403, 404, 500, 503}"
  proof (elim disjE exE)
    fix err'
    assume eq: "fst (get_albums e) = handleS3Error e err'"
    show ?thesis unfolding eq using handleS3Error_fields by blast
  qed simp
qed

theorem failure_responses_witness:
  "get_albums ((example_env (\<lambda>p. Inr []))\<lparr>AWS_SECRET_ACCESS_KEY := None\<rparr>) =
        (\<lparr>status = 500, body = JObj [(''success'', JBool False),
           (''error'', JStr ''AWS credentials are not properly configured. Check server logs for details.'')]\<rparr>,
         [])
   \<and> get_albums (example_env (\<lambda>p. Inl \<lparr>code = Some ''NoSuchBucket'', message = ''gone''\<rparr>)) =
        (\<lparr>status = 404, body = JObj [(''success'', JBool False),
             (''error'', JStr (''Bucket '' @ quoted ''lowfi-records'' @ '' does not exist.''))]\<rparr>,
         [\<lparr>Bucket = ''lowfi-records'', Prefix = ''p/'', MaxKeys = 1000\<rparr>])
   \<and> json_field (body (handleS3Error (example_env (\<lambda>p. Inr []))
          \<lparr>code = Some ''SlowDown'', message = ''Please reduce your request rate.''\<rparr>)) ''code''
       = Some (JStr ''SlowDown'')"
proof -
  let ?e1 = "(example_env (\<lambda>p. Inr []))\<lparr>AWS_SECRET_ACCESS_KEY := None\<rparr>"
  let ?err = "\<lparr>code = Some ''NoSuchBucket'', message = ''gone''\<rparr>"
  let ?e2 = "example_env (\<lambda>p. Inl ?err)"
  let ?other = "\<lparr>code = Some ''SlowDown'', message = ''Please reduce your request rate.''\<rparr>"
  have h1: "\<not> credentialsVerified ?e1"
    by (simp add: credentialsVerified_def verifyAwsCredentials_def example_env_def falsy_def)
  have h2: "credentialsVerified ?e2 \<and> listObjectsV2 ?e2 (listing_request ?e2) = Inl ?err"
    by (simp add: example_credentials example_listing)
  have h3: "code ?err = Some ''NoSuchBucket''" by simp
  have h4: "code ?other \<notin> {Some ''NoSuchBucket'', Some ''AccessDenied'',
      Some ''CredentialsError'', Some ''NetworkingError''}" by simp
  have a: "get_albums ?e1 =
        (\<lparr>status = 500, body = JObj [(''success'', JBool False),
           (''error'', JStr ''AWS credentials are not properly configured. Check server logs for details.'')]\<rparr>,
         [])"
    using failure_responses [of ?e1 ?err] h1 by blast
  have b: "get_albums ?e2 = (handleS3Error ?e2 ?err, [listing_request ?e2])"
    using failure_responses [of ?e2 ?err] h2 by blast
  have c: "handleS3Error ?e2 ?err =
          \<lparr>status = 404, body = JObj [(''success'', JBool False),
             (''error'', JStr (''Bucket '' @ quoted (S3_BUCKET_NAME ?e2) @ '' does not exist.''))]\<rparr>"
    using failure_responses [of ?e2 ?err] h3 by blast
  have d: "json_field (body (handleS3Error (example_env (\<lambda>p. Inr [])) ?other)) ''code''
       = map_option JStr (code ?other)"
    using failure_responses [of "example_env (\<lambda>p. Inr [])" ?other] h4 by blast
  show ?thesis
    using a b c d by (simp add: listing_request_def example_bucket example_prefix)
qed

section \<open>The shuffle\<close>

lemma length_swap [simp]: "length (swap i j xs) = length xs"
  by (simp add: swap_def)

lemma mset_swap_list:
  "i < length xs \<Longrightarrow> j < length xs \<Longrightarrow> mset (swap i j xs) = mset xs"
  unfolding swap_def by (rule mset_swap)

lemma nth_swap_other:
  "k \<noteq> i \<Longrightarrow> k \<noteq> j \<Longrightarrow> swap i j xs ! k = xs ! k"
  by (simp add: swap_def)

lemma nth_swap_first:
  "i < length xs \<Longrightarrow> j < length xs \<Longrightarrow> swap i j xs ! i = xs ! j"
  by (cases "i = j") (simp_all add: swap_def)

lemma distinct_swap:
  "i < length xs \<Longrightarrow> j < length xs \<Longrightarrow> distinct xs \<Longrightarrow> distinct (swap i j xs)"
  using mset_swap_list [of i xs j] mset_eq_imp_distinct_iff by blast

lemma shuffle_draws_eq:
  "shuffle e r i xs = (shuffle_draws i (draws e r i) xs, r + i)"
  by (induction i arbitrary: r xs) (simp_all add: Let_def)

lemma below_one_times:
  fixes m k :: nat
  assumes "m < 2 ^ 53" and "m < 2 ^ k"
  shows "(2 ^ 53 + 1) * m < 2 ^ 53 * 2 ^ k"
proof -
  define A :: nat where "A = 2 ^ 53"
  define B :: nat where "B = 2 ^ k"
  have m: "m < A" "m < B" using assms by (simp_all add: A_def B_def)
  have expand: "(A + 1) * m = m * A + m" by (simp add: algebra_simps)
  have "(A + 1) * m < A * B"
  proof (cases "B \<le> A")
    case True
    have "(m + 1) * (A + 1) \<le> B * (A + 1)"
      using m(2) by (intro mult_le_mono1) simp
    then have "m * A + m + A + 1 \<le> A * B + B" by (simp add: algebra_simps)
    with True expand show ?thesis by linarith
  next
    case False
    then have e1: "A * A \<le> A * B" by (intro mult_le_mono2) simp
    have "(m + 1) * (A + 1) \<le> A * (A + 1)"
      using m(1) by (intro mult_le_mono1) simp
    then have "m * A + m + A + 1 \<le> A * A + A" by (simp add: algebra_simps)
    with e1 expand show ?thesis by linarith
  qed
  then show ?thesis by (simp only: A_def B_def)
qed

lemma floor_times_below:
  assumes "is_unit_double u" and "0 < n"
  shows "Math_floor_times u n < n"
proof -
  define m where "m = mantissa u"
  define k where "k = binary_places u"
  define v where "v = round_to_53_bits (m * n)"
  from assms(1) have m: "m < 2 ^ 53" "m < 2 ^ k"
    by (simp_all add: is_unit_double_def m_def k_def)
  have "2 ^ 53 * v \<le> (2 ^ 53 + 1) * (m * n)"
    unfolding v_def by (rule round_relative)
  also have "\<dots> = ((2 ^ 53 + 1) * m) * n" by (simp only: mult.assoc)
  also have "\<dots> < (2 ^ 53 * 2 ^ k) * n"
    using below_one_times [OF m] assms(2) by (intro mult_strict_right_mono) simp_all
  finally have "2 ^ 53 * v < 2 ^ 53 * (n * 2 ^ k)" by (simp only: mult_ac)
  then have "v < n * 2 ^ k" by simp
  then have "v div 2 ^ k < n" by (simp add: less_mult_imp_div_less)
  then show ?thesis by (simp add: Math_floor_times_def v_def m_def k_def)
qed

lemma floor_times_lower:
  assumes "j < 2 ^ 53" and "j * 2 ^ binary_places u \<le> mantissa u * n"
  shows "j \<le> Math_floor_times u n"
proof -
  have "j * 2 ^ binary_places u \<le> round_to_53_bits (mantissa u * n)"
    using refl assms by (rule round_above)
  then show ?thesis
    by (simp add: Math_floor_times_def less_eq_div_iff_mult_less_eq)
qed

lemma floor_times_upper:
  assumes "mantissa u < 2 ^ binary_places u" and "0 < n"
    and "2 ^ 53 * (mantissa u * n) + n * 2 ^ binary_places u \<le> 2 ^ 53 * (j * 2 ^ binary_places u)"
  shows "Math_floor_times u n < j"
proof -
  define m where "m = mantissa u"
  define k where "k = binary_places u"
  define v where "v = round_to_53_bits (m * n)"
  have "m * n < 2 ^ k * n"
    using assms(1,2) unfolding m_def k_def by (intro mult_strict_right_mono) simp_all
  then have P: "m * n < n * 2 ^ k" by (simp only: mult.commute)
  have "2 ^ 53 * v \<le> (2 ^ 53 + 1) * (m * n)"
    unfolding v_def by (rule round_relative)
  also have "\<dots> = 2 ^ 53 * (m * n) + m * n" by (simp add: algebra_simps)
  also have "\<dots> < 2 ^ 53 * (m * n) + n * 2 ^ k" using P by simp
  also have "\<dots> \<le> 2 ^ 53 * (j * 2 ^ k)" using assms(3) by (simp only: m_def k_def)
  finally have "v < j * 2 ^ k" by simp
  then have "v div 2 ^ k < j" by (simp add: less_mult_imp_div_less)
  then show ?thesis by (simp add: Math_floor_times_def v_def m_def k_def)
qed

lemma floor_times_above:
  assumes "mantissa u < 2 ^ binary_places u" and "0 < n" and "j \<le> Math_floor_times u n"
  shows "2 ^ 53 * (j * 2 ^ binary_places u) < 2 ^ 53 * (mantissa u * n) + n * 2 ^ binary_places u"
proof -
  define m where "m = mantissa u"
  define k where "k = binary_places u"
  define v where "v = round_to_53_bits (m * n)"
  have "m * n < 2 ^ k * n"
    using assms(1,2) unfolding m_def k_def by (intro mult_strict_right_mono) simp_all
  then have P: "m * n < n * 2 ^ k" by (simp only: mult.commute)
  from assms(3) have "j * 2 ^ k \<le> v"
    by (simp add: Math_floor_times_def v_def m_def k_def less_eq_div_iff_mult_less_eq)
  then have "2 ^ 53 * (j * 2 ^ k) \<le> 2 ^ 53 * v" by (rule mult_le_mono2)
  also have "\<dots> \<le> (2 ^ 53 + 1) * (m * n)"
    unfolding v_def by (rule round_relative)
  also have "\<dots> = 2 ^ 53 * (m * n) + m * n" by (simp add: algebra_simps)
  also have "\<dots> < 2 ^ 53 * (m * n) + n * 2 ^ k" using P by simp
  finally show ?thesis by (simp only: m_def k_def)
qed

lemma floor_times_less:
  assumes "j < 2 ^ 53" and "Math_floor_times u n < j"
  shows "mantissa u * n < j * 2 ^ binary_places u"
proof (rule ccontr)
  assume "\<not> mantissa u * n < j * 2 ^ binary_places u"
  then have "j * 2 ^ binary_places u \<le> mantissa u * n" by simp
  from floor_times_lower [OF assms(1) this] assms(2) show False by simp
qed

lemma valid_draws_draws: "random_ok e \<Longrightarrow> valid_draws i (draws e r i)"
proof (induction i arbitrary: r)
  case 0
  then show ?case by simp
next
  case (Suc i)
  have "is_unit_double (Math_random e r)"
    using Suc.prems by (simp add: random_ok_def)
  then have "Math_floor_times (Math_random e r) (Suc i + 1) < Suc i + 1"
    by (rule floor_times_below) simp
  then have "Math_floor_times (Math_random e r) (Suc i + 1) \<le> Suc i" by simp
  then show ?case
    using Suc.IH [OF Suc.prems] by (simp only: draws.simps valid_draws.simps simp_thms)
qed

lemma fraction_le_iff:
  fixes j n m k :: nat
  assumes "0 < n"
  shows "real j / real n \<le> real m / 2 ^ k \<longleftrightarrow> j * 2 ^ k \<le> m * n"
proof -
  have "real j / real n \<le> real m / 2 ^ k \<longleftrightarrow> real j * 2 ^ k \<le> real m * real n"
    using assms by (simp add: field_simps)
  also have "\<dots> \<longleftrightarrow> real (j * 2 ^ k) \<le> real (m * n)" by simp
  also have "\<dots> \<longleftrightarrow> j * 2 ^ k \<le> m * n" by (rule of_nat_le_iff)
  finally show ?thesis .
qed

lemma fraction_less_iff:
  fixes j n m k :: nat
  assumes "0 < n"
  shows "real m / 2 ^ k < real j / real n \<longleftrightarrow> m * n < j * 2 ^ k"
proof -
  have "real m / 2 ^ k < real j / real n \<longleftrightarrow> real m * real n < real j * 2 ^ k"
    using assms by (simp add: field_simps)
  also have "\<dots> \<longleftrightarrow> real (m * n) < real (j * 2 ^ k)" by simp
  also have "\<dots> \<longleftrightarrow> m * n < j * 2 ^ k" by (rule of_nat_less_iff)
  finally show ?thesis .
qed

lemma shifted_le_iff:
  fixes j n m k :: nat
  assumes "0 < n"
  shows "real m / 2 ^ k \<le> real j / real n - 1 / 2 ^ 53
     \<longleftrightarrow> 2 ^ 53 * (m * n) + n * 2 ^ k \<le> 2 ^ 53 * (j * 2 ^ k)"
proof -
  have "real m / 2 ^ k \<le> real j / real n - 1 / 2 ^ 53
      \<longleftrightarrow> real m / 2 ^ k + 1 / 2 ^ 53 \<le> real j / real n" by linarith
  also have "real m / 2 ^ k + 1 / 2 ^ 53 = (2 ^ 53 * real m + 2 ^ k) / (2 ^ 53 * 2 ^ k)"
    by (simp add: field_simps)
  also have "(2 ^ 53 * real m + 2 ^ k) / (2 ^ 53 * 2 ^ k) \<le> real j / real n
      \<longleftrightarrow> (2 ^ 53 * real m + 2 ^ k) * real n \<le> real j * (2 ^ 53 * 2 ^ k)"
    using assms by (simp add: frac_le_eq divide_le_eq le_divide_eq field_simps)
  also have "\<dots> \<longleftrightarrow> real (2 ^ 53 * (m * n) + n * 2 ^ k) \<le> real (2 ^ 53 * (j * 2 ^ k))"
    by (simp add: algebra_simps)
  also have "\<dots> \<longleftrightarrow> 2 ^ 53 * (m * n) + n * 2 ^ k \<le> 2 ^ 53 * (j * 2 ^ k)"
    by (rule of_nat_le_iff)
  finally show ?thesis .
qed

lemma shifted_less_iff:
  fixes j n m k :: nat
  assumes "0 < n"
  shows "real j / real n - 1 / 2 ^ 53 < real m / 2 ^ k
     \<longleftrightarrow> 2 ^ 53 * (j * 2 ^ k) < 2 ^ 53 * (m * n) + n * 2 ^ k"
  using shifted_le_iff [OF assms, of m k j] by linarith

lemma draw_interval:
  assumes "is_unit_double u" and "j \<le> i" and "i < 2 ^ 52"
  shows "real j / real (i + 1) \<le> real_of_unit u
         \<Longrightarrow> real_of_unit u \<le> real (j + 1) / real (i + 1) - 1 / 2 ^ 53
         \<Longrightarrow> Math_floor_times u (i + 1) = j"
    and "Math_floor_times u (i + 1) = j
         \<Longrightarrow> real j / real (i + 1) - 1 / 2 ^ 53 < real_of_unit u
             \<and> real_of_unit u < real (j + 1) / real (i + 1)"
proof -
  from assms(1) have one: "mantissa u < 2 ^ binary_places u"
    by (simp add: is_unit_double_def)
  from assms(2,3) have j: "j < 2 ^ 53" "j + 1 < 2 ^ 53" by simp_all
  have n: "0 < i + 1" by simp
  {
    assume lo: "real j / real (i + 1) \<le> real_of_unit u"
      and hi: "real_of_unit u \<le> real (j + 1) / real (i + 1) - 1 / 2 ^ 53"
    from lo have "j * 2 ^ binary_places u \<le> mantissa u * (i + 1)"
      unfolding real_of_unit_def by (simp only: fraction_le_iff [OF n])
    from floor_times_lower [OF j(1) this] have a: "j \<le> Math_floor_times u (i + 1)" .
    from hi have "2 ^ 53 * (mantissa u * (i + 1)) + (i + 1) * 2 ^ binary_places u
        \<le> 2 ^ 53 * ((j + 1) * 2 ^ binary_places u)"
      unfolding real_of_unit_def by (simp only: shifted_le_iff [OF n])
    from floor_times_upper [OF one n this] have "Math_floor_times u (i + 1) < j + 1" .
    with a show "Math_floor_times u (i + 1) = j" by simp
  }
  {
    assume eq: "Math_floor_times u (i + 1) = j"
    then have "j \<le> Math_floor_times u (i + 1)" by simp
    from floor_times_above [OF one n this]
    have a: "real j / real (i + 1) - 1 / 2 ^ 53 < real_of_unit u"
      unfolding real_of_unit_def by (simp only: shifted_less_iff [OF n])
    from eq have "Math_floor_times u (i + 1) < j + 1" by simp
    from floor_times_less [OF j(2) this]
    have "real_of_unit u < real (j + 1) / real (i + 1)"
      unfolding real_of_unit_def by (simp only: fraction_less_iff [OF n])
    with a show "real j / real (i + 1) - 1 / 2 ^ 53 < real_of_unit u
             \<and> real_of_unit u < real (j + 1) / real (i + 1)" by simp
  }
qed

lemma draw_reached:
  assumes "j \<le> i" and "i < 2 ^ 52"
  shows "\<exists>u. is_unit_double u \<and> Math_floor_times u (i + 1) = j"
proof -
  define m where "m = (j * 2 ^ 53 + i) div (i + 1)"
  define u where "u = \<lparr>mantissa = m, binary_places = 53\<rparr>"
  have up: "m * (i + 1) \<le> j * 2 ^ 53 + i"
    unfolding m_def by (rule div_times_less_eq_dividend)
  have "(j * 2 ^ 53 + i) mod (i + 1) \<le> i"
    using mod_less_divisor [of "i + 1" "j * 2 ^ 53 + i"] by simp
  moreover have "m * (i + 1) + (j * 2 ^ 53 + i) mod (i + 1) = j * 2 ^ 53 + i"
    unfolding m_def by (rule div_mult_mod_eq)
  ultimately have low: "j * 2 ^ 53 \<le> m * (i + 1)" by linarith
  have "j * 2 ^ 53 \<le> i * 2 ^ 53" using assms(1) by (rule mult_le_mono1)
  with up assms(2) have "m * (i + 1) < 2 ^ 53 * (i + 1)" by (simp add: algebra_simps)
  then have m: "m < 2 ^ 53"
    using mult_less_cancel2 [of m "i + 1" "2 ^ 53"] by blast
  then have u: "is_unit_double u" by (simp add: is_unit_double_def u_def)
  from assms have j: "j < 2 ^ 53" by simp
  have a: "j \<le> Math_floor_times u (i + 1)"
    using j low by (intro floor_times_lower) (simp_all add: u_def)
  have "m * (i + 1) + (i + 1) \<le> (j + 1) * 2 ^ 53"
    using up assms(2) by (simp add: algebra_simps)
  then have "2 ^ 53 * (m * (i + 1) + (i + 1)) \<le> 2 ^ 53 * ((j + 1) * 2 ^ 53)"
    by (rule mult_le_mono2)
  then have "2 ^ 53 * (mantissa u * (i + 1)) + (i + 1) * 2 ^ binary_places u
      \<le> 2 ^ 53 * ((j + 1) * 2 ^ binary_places u)"
    by (simp add: u_def algebra_simps)
  then have "Math_floor_times u (i + 1) < j + 1"
    using m by (intro floor_times_upper) (simp_all add: u_def)
  with a u show ?thesis by auto
qed

lemma pred_less: "n \<le> b \<Longrightarrow> 0 < b \<Longrightarrow> n - 1 < (b::nat)"
  by arith

lemma draws_cong:
  "(\<And>k. r \<le> k \<Longrightarrow> Math_random e k = Math_random e' k) \<Longrightarrow> draws e r i = draws e' r i"
proof (induction i arbitrary: r)
  case 0
  then show ?case by simp
next
  case (Suc i)
  have "draws e (Suc r) i = draws e' (Suc r) i"
    by (rule Suc.IH) (simp add: Suc.prems)
  with Suc.prems [of r] show ?case by simp
qed

lemma draws_reached:
  assumes "valid_draws i js" and "i < 2 ^ 52"
  shows "\<exists>rnd. (\<forall>k. is_unit_double (rnd k)) \<and> draws (e\<lparr>Math_random := rnd\<rparr>) r i = js"
  using assms
proof (induction i arbitrary: js r)
  case 0
  then have js: "js = []" by simp
  have z: "is_unit_double \<lparr>mantissa = 0, binary_places = 0\<rparr>"
    by (simp add: is_unit_double_def)
  show ?case
    by (rule exI [of _ "\<lambda>k. \<lparr>mantissa = 0, binary_places = 0\<rparr>"]) (simp add: js z)
next
  case (Suc i)
  from Suc.prems(1) obtain j t where js: "js = j # t" by (cases js) simp_all
  with Suc.prems have j: "j \<le> Suc i" and t: "valid_draws i t" and i: "i < 2 ^ 52" by simp_all
  from Suc.IH [OF t i, of "Suc r"] obtain rnd0
    where ok0: "\<forall>k. is_unit_double (rnd0 k)"
      and d0: "draws (e\<lparr>Math_random := rnd0\<rparr>) (Suc r) i = t" by blast
  from draw_reached [OF j Suc.prems(2)] obtain u
    where u: "is_unit_double u" "Math_floor_times u (Suc i + 1) = j" by blast
  define rnd where "rnd = rnd0(r := u)"
  have ok: "\<forall>k. is_unit_double (rnd k)" using ok0 u(1) by (simp add: rnd_def)
  have "draws (e\<lparr>Math_random := rnd\<rparr>) (Suc r) i = draws (e\<lparr>Math_random := rnd0\<rparr>) (Suc r) i"
    by (rule draws_cong) (simp add: rnd_def)
  then have "draws (e\<lparr>Math_random := rnd\<rparr>) r (Suc i) = js"
    using u(2) d0 by (simp add: js rnd_def)
  with ok show ?case by blast
qed

lemma length_shuffle_draws [simp]: "length (shuffle_draws i js xs) = length xs"
  by (induction i js xs rule: shuffle_draws.induct) simp_all

lemma mset_shuffle_draws:
  "valid_draws i js \<Longrightarrow> i < length xs \<Longrightarrow> mset (shuffle_draws i js xs) = mset xs"
proof (induction i js xs rule: shuffle_draws.induct)
  case (3 i j js xs)
  then show ?case by (simp add: mset_swap_list)
qed simp_all

lemma shuffle_draws_nth_above:
  "valid_draws i js \<Longrightarrow> i < k \<Longrightarrow> shuffle_draws i js xs ! k = xs ! k"
proof (induction i js xs rule: shuffle_draws.induct)
  case (3 i j js xs)
  then show ?case by (simp add: nth_swap_other)
qed simp_all

lemma shuffle_draws_nth_start:
  assumes "valid_draws (Suc i) (j # js)" and "Suc i < length xs"
  shows "shuffle_draws (Suc i) (j # js) xs ! Suc i = xs ! j"
proof -
  from assms have v: "valid_draws i js" and j: "j < length xs" by simp_all
  have "shuffle_draws (Suc i) (j # js) xs ! Suc i = swap (Suc i) j xs ! Suc i"
    using v by (simp add: shuffle_draws_nth_above)
  also have "\<dots> = xs ! j"
    using assms(2) j by (rule nth_swap_first)
  finally show ?thesis .
qed

lemma shuffle_draws_inj:
  "distinct xs \<Longrightarrow> i < length xs \<Longrightarrow> valid_draws i js \<Longrightarrow> valid_draws i js'
   \<Longrightarrow> shuffle_draws i js xs = shuffle_draws i js' xs \<Longrightarrow> js = js'"
proof (induction i arbitrary: js js' xs)
  case 0
  then show ?case by simp
next
  case (Suc i)
  from Suc.prems(3) obtain j t where js: "js = j # t"
    by (cases js) simp_all
  from Suc.prems(4) obtain j' t' where js': "js' = j' # t'"
    by (cases js') simp_all
  from Suc.prems js js' have bounds: "j < length xs" "j' < length xs"
    and vt: "valid_draws i t" "valid_draws i t'" by simp_all
  have "xs ! j = shuffle_draws (Suc i) (j # t) xs ! Suc i"
    using Suc.prems(2,3) js by (simp only: shuffle_draws_nth_start)
  also have "\<dots> = shuffle_draws (Suc i) (j' # t') xs ! Suc i"
    using Suc.prems(5) js js' by simp
  also have "\<dots> = xs ! j'"
    using Suc.prems(2,4) js' by (simp only: shuffle_draws_nth_start)
  finally have "j = j'"
    using Suc.prems(1) bounds by (simp add: nth_eq_iff_index_eq)
  moreover have "t = t'"
  proof (rule Suc.IH)
    show "distinct (swap (Suc i) j xs)"
      using Suc.prems(1,2) bounds by (simp add: distinct_swap)
    show "i < length (swap (Suc i) j xs)" using Suc.prems(2) by simp
    show "valid_draws i t" "valid_draws i t'" by fact+
    show "shuffle_draws i t (swap (Suc i) j xs) = shuffle_draws i t' (swap (Suc i) j xs)"
      using Suc.prems(5) js js' \<open>j = j'\<close> by simp
  qed
  ultimately show ?case by (simp add: js js')
qed

lemma valid_draws_Suc_image:
  "{js. valid_draws (Suc i) js} = (\<lambda>(j, t). j # t) ` ({..Suc i} \<times> {js. valid_draws i js})"
proof (rule set_eqI)
  fix js
  show "js \<in> {js. valid_draws (Suc i) js}
    \<longleftrightarrow> js \<in> (\<lambda>(j, t). j # t) ` ({..Suc i} \<times> {js. valid_draws i js})"
    by (cases js) auto
qed

lemma finite_valid_draws: "finite {js. valid_draws i js}"
  by (induction i) (simp_all add: valid_draws_Suc_image)

lemma card_valid_draws: "card {js. valid_draws i js} = fact (Suc i)"
proof (induction i)
  case 0
  then show ?case by simp
next
  case (Suc i)
  have "inj_on (\<lambda>(j, t). j # t) ({..Suc i} \<times> {js. valid_draws i js})"
    by (rule inj_onI) auto
  then have "card {js. valid_draws (Suc i) js}
      = card ({..Suc i} \<times> {js. valid_draws i js})"
    by (simp only: valid_draws_Suc_image card_image)
  also have "\<dots> = Suc (Suc i) * fact (Suc i)"
    by (simp add: card_cartesian_product Suc.IH)
  finally show ?case by simp
qed

lemma permutations_upt:
  "{p. mset p = mset [0..<n]} = {p. length p = n \<and> distinct p \<and> set p \<subseteq> {0..<n}}"
proof (rule set_eqI, rule iffI)
  fix p
  assume "p \<in> {p. mset p = mset [0..<n]}"
  then have m: "mset p = mset [0..<n]" by simp
  have "length p = n" using mset_eq_length [OF m] by simp
  moreover have "distinct p" using mset_eq_imp_distinct_iff [OF m] by simp
  moreover have "set p = {0..<n}" using mset_eq_setD [OF m] by simp
  ultimately show "p \<in> {p. length p = n \<and> distinct p \<and> set p \<subseteq> {0..<n}}" by simp
next
  fix p
  assume "p \<in> {p. length p = n \<and> distinct p \<and> set p \<subseteq> {0..<n}}"
  then have l: "length p = n" and d: "distinct p" and s: "set p \<subseteq> {0..<n}" by simp_all
  have "card (set p) = n" using l d by (simp add: distinct_card)
  then have "set p = {0..<n}" using s by (simp add: card_subset_eq)
  then have "mset p = mset [0..<n]"
    using d set_eq_iff_mset_eq_distinct [of p "[0..<n]"] by (simp del: mset_upt)
  then show "p \<in> {p. mset p = mset [0..<n]}" by simp
qed

lemma card_permutations_upt: "card {p. mset p = mset [0..<n]} = fact n"
proof -
  have "card {p. length p = n \<and> distinct p \<and> set p \<subseteq> {0..<n}} = \<Prod>{card {0..<n} - n + 1 .. card {0..<n}}"
    by (rule card_lists_distinct_length_eq) simp_all
  also have "\<dots> = \<Prod>{1..n}" by simp
  also have "\<dots> = fact n" by (simp add: fact_prod)
  finally show ?thesis by (simp only: permutations_upt)
qed

lemma finite_permutations_upt: "finite {p. mset p = mset [0..<n]}"
proof -
  have "{p. length p = n \<and> distinct p \<and> set p \<subseteq> {0..<n}} \<subseteq> {p. set p \<subseteq> {0..<n} \<and> length p = n}"
    by auto
  then show ?thesis
    unfolding permutations_upt
    by (rule finite_subset) (simp add: finite_lists_length_eq)
qed

lemma shuffle_draws_bij:
  "bij_betw (\<lambda>js. shuffle_draws (n - 1) js [0..<n]) {js. valid_draws (n - 1) js}
     {p. mset p = mset [0..<n]}"
proof (cases n)
  case 0
  have "{js. valid_draws 0 js} = {[]}" by auto
  moreover have "{p::nat list. mset p = mset []} = {[]}" by auto
  ultimately show ?thesis using 0 by (simp add: bij_betw_def)
next
  case (Suc m)
  let ?f = "\<lambda>js. shuffle_draws m js [0..<Suc m]"
  let ?D = "{js. valid_draws m js}"
  let ?P = "{p. mset p = mset [0..<Suc m]}"
  have inj: "inj_on ?f ?D"
  proof (rule inj_onI)
    fix js js'
    assume "js \<in> ?D" "js' \<in> ?D" "?f js = ?f js'"
    then show "js = js'"
      using shuffle_draws_inj [of "[0..<Suc m]" m js js'] by simp
  qed
  have sub: "?f ` ?D \<subseteq> ?P"
    by (auto simp: mset_shuffle_draws simp del: upt_Suc mset_upt)
  have "card (?f ` ?D) = card ?D"
    using inj by (rule card_image)
  also have "\<dots> = fact (Suc m)" by (rule card_valid_draws)
  also have "\<dots> = card ?P" by (simp only: card_permutations_upt)
  finally have "card (?f ` ?D) = card ?P" .
  with finite_permutations_upt [of "Suc m"] sub have "?f ` ?D = ?P"
    by (rule card_subset_eq)
  with inj have "bij_betw ?f ?D ?P" by (simp only: bij_betw_def simp_thms)
  then show ?thesis using Suc by (simp del: upt_Suc mset_upt)
qed

text \<open>
  C7. The loop of \<open>shuffle\<close>, entered at \<open>trackCount - 1\<close> on \<open>[0, ..., trackCount - 1]\<close>,
  swaps position \<open>i\<close> with the draw \<open>j\<close> for \<open>i\<close> from \<open>trackCount - 1\<close> down to 1. Each
  draw is \<^verbatim>\<open>Math.floor(Math.random() * (i + 1))\<close> and lies in \<open>[0, i]\<close>. It is \<open>j\<close> for the
  random values of the interval from \<open>j / (i + 1)\<close> to \<open>(j + 1) / (i + 1)\<close>, which has the
  same length \<open>1 / (i + 1)\<close> for every \<open>j\<close>; the rounding of the product moves each end of
  the interval down by less than \<open>1 / 2 ^ 53\<close>. Every \<open>j\<close> in \<open>[0, i]\<close> is the draw of
  some random value, every sequence of draws with \<open>j\<close> in \<open>[0, i]\<close> is the one of some
  random source, and every arrangement of \<open>[0, ..., trackCount - 1]\<close> is the result of
  the loop for some random source. The map from the sequences of draws with \<open>j\<close> in
  \<open>[0, i]\<close> to the arrangements is a bijection: each of the \<open>trackCount!\<close> arrangements
  comes from exactly one sequence of draws.
\<close>

theorem fisher_yates_unbiased:
  "shuffle e r (n - 1) [0..<n] = (shuffle_draws (n - 1) (draws e r (n - 1)) [0..<n], r + (n - 1))
   \<and> draws e r (Suc k) = Math_floor_times (Math_random e r) (Suc k + 1) # draws e (Suc r) k
   \<and> (random_ok e \<longrightarrow> valid_draws (n - 1) (draws e r (n - 1)))
   \<and> (is_unit_double u \<and> j \<le> i \<and> i < 2 ^ 52 \<longrightarrow>
        (real j / real (i + 1) \<le> real_of_unit u
           \<and> real_of_unit u \<le> real (j + 1) / real (i + 1) - 1 / 2 ^ 53
           \<longrightarrow> Math_floor_times u (i + 1) = j)
        \<and> (Math_floor_times u (i + 1) = j
           \<longrightarrow> real j / real (i + 1) - 1 / 2 ^ 53 < real_of_unit u
               \<and> real_of_unit u < real (j + 1) / real (i + 1))
        \<and> (\<exists>u'. is_unit_double u' \<and> Math_floor_times u' (i + 1) = j))
   \<and> (valid_draws (n - 1) js \<and> n \<le> 2 ^ 52 \<longrightarrow>
        (\<exists>rnd. (\<forall>k. is_unit_double (rnd k))
           \<and> draws (e\<lparr>Math_random := rnd\<rparr>) r (n - 1) = js))
   \<and> (mset p = mset [0..<n] \<and> n \<le> 2 ^ 52 \<longrightarrow>
        (\<exists>rnd. (\<forall>k. is_unit_double (rnd k))
           \<and> fst (shuffle (e\<lparr>Math_random := rnd\<rparr>) r (n - 1) [0..<n]) = p))
   \<and> bij_betw (\<lambda>js. shuffle_draws (n - 1) js [0..<n]) {js. valid_draws (n - 1) js}
        {p. mset p = mset [0..<n]}
   \<and> (mset p = mset [0..<n] \<longrightarrow>
        (\<exists>!js. valid_draws (n - 1) js \<and> shuffle_draws (n - 1) js [0..<n] = p))
   \<and> card {js. valid_draws (n - 1) js} = fact n
   \<and> card {p. mset p = mset [0..<n]} = fact n"
proof (intro conjI impI)
  show "shuffle e r (n - 1) [0..<n]
      = (shuffle_draws (n - 1) (draws e r (n - 1)) [0..<n], r + (n - 1))"
    by (rule shuffle_draws_eq)
  show "draws e r (Suc k) = Math_floor_times (Math_random e r) (Suc k + 1) # draws e (Suc r) k"
    by (rule draws.simps)
  show "valid_draws (n - 1) (draws e r (n - 1))" if "random_ok e"
    using that by (rule valid_draws_draws)
  show bij: "bij_betw (\<lambda>js. shuffle_draws (n - 1) js [0..<n]) {js. valid_draws (n - 1) js}
        {p. mset p = mset [0..<n]}"
    by (rule shuffle_draws_bij)
  show one: "\<exists>!js. valid_draws (n - 1) js \<and> shuffle_draws (n - 1) js [0..<n] = p"
    if "mset p = mset [0..<n]"
  proof -
    let ?f = "\<lambda>js. shuffle_draws (n - 1) js [0..<n]"
    from bij have inj: "inj_on ?f {js. valid_draws (n - 1) js}"
      and img: "?f ` {js. valid_draws (n - 1) js} = {p. mset p = mset [0..<n]}"
      by (simp_all only: bij_betw_def)
    from that have "p \<in> ?f ` {js. valid_draws (n - 1) js}"
      by (simp only: img mem_Collect_eq)
    then obtain js where js: "valid_draws (n - 1) js" "?f js = p" by auto
    show ?thesis
    proof (rule ex1I [of _ js])
      show "valid_draws (n - 1) js \<and> ?f js = p" using js by simp
    next
      fix js'
      assume "valid_draws (n - 1) js' \<and> ?f js' = p"
      with js inj show "js' = js" by (auto dest: inj_onD)
    qed
  qed
  show "card {js. valid_draws (n - 1) js} = fact n"
    by (cases n) (simp_all add: card_valid_draws del: fact_Suc)
  show "card {p. mset p = mset [0..<n]} = fact n"
    by (rule card_permutations_upt)
  show "\<exists>rnd. (\<forall>k. is_unit_double (rnd k)) \<and> draws (e\<lparr>Math_random := rnd\<rparr>) r (n - 1) = js"
    if "valid_draws (n - 1) js \<and> n \<le> 2 ^ 52"
    using that pred_less [of n "2 ^ 52"] by (intro draws_reached) simp_all
  show "\<exists>rnd. (\<forall>k. is_unit_double (rnd k))
      \<and> fst (shuffle (e\<lparr>Math_random := rnd\<rparr>) r (n - 1) [0..<n]) = p"
    if h: "mset p = mset [0..<n] \<and> n \<le> 2 ^ 52"
  proof -
    from one h obtain ds where ds: "valid_draws (n - 1) ds"
      "shuffle_draws (n - 1) ds [0..<n] = p" by blast
    from h have "n - 1 < 2 ^ 52" using pred_less [of n "2 ^ 52"] by simp
    from draws_reached [OF ds(1) this, of e r] obtain rnd
      where "\<forall>k. is_unit_double (rnd k)" "draws (e\<lparr>Math_random := rnd\<rparr>) r (n - 1) = ds"
      by blast
    with ds(2) show ?thesis by (auto simp: shuffle_draws_eq)
  qed
next
  assume h: "is_unit_double u \<and> j \<le> i \<and> i < 2 ^ 52"
  then show "\<exists>u'. is_unit_double u' \<and> Math_floor_times u' (i + 1) = j"
    by (intro draw_reached) simp_all
  from h show "Math_floor_times u (i + 1) = j"
    if "real j / real (i + 1) \<le> real_of_unit u
           \<and> real_of_unit u \<le> real (j + 1) / real (i + 1) - 1 / 2 ^ 53"
    using that draw_interval(1) [of u j i] by blast
  from h show "real j / real (i + 1) - 1 / 2 ^ 53 < real_of_unit u"
    if "Math_floor_times u (i + 1) = j"
    using that draw_interval(2) [of u j i] by blast
  from h show "real_of_unit u < real (j + 1) / real (i + 1)"
    if "Math_floor_times u (i + 1) = j"
    using that draw_interval(2) [of u j i] by blast
qed

theorem fisher_yates_unbiased_witness:
  "Math_floor_times seven_tenths 10 = 7
   \<and> real_of_unit seven_tenths < 7 / 10
   \<and> 7 / 10 - 1 / 2 ^ 53 < real_of_unit seven_tenths
   \<and> valid_draws 2 (draws (example_env (\<lambda>p. Inr [])) 0 2)
   \<and> shuffle (example_env (\<lambda>p. Inr [])) 0 2 [0, 1, 2] = ([0, 2, 1], 2)
   \<and> (\<exists>!js. valid_draws 2 js \<and> shuffle_draws 2 js [0, 1, 2 :: nat] = [2, 1, 0])
   \<and> (\<exists>rnd. (\<forall>k. is_unit_double (rnd k))
         \<and> fst (shuffle ((example_env (\<lambda>p. Inr []))\<lparr>Math_random := rnd\<rparr>) 0 2 [0, 1, 2])
             = [2, 1, 0])"
proof -
  let ?e = "example_env (\<lambda>p. Inr [])"
  have u: "[0..<3] = [0, 1, 2 :: nat]"
    by (simp add: upt_rec)
  have m: "mset [2, 1, 0] = mset [0..<(3::nat)]"
    unfolding u by simp
  have two: "(2::nat) = Suc (Suc 0)" by simp
  have dr: "draws ?e 0 2 = [1, 1]"
    unfolding two by (simp add: example_random half_times)
  have "shuffle_draws 2 [1, 1] [0, 1, 2] = [0, 2, 1 :: nat]"
    unfolding two by (simp add: swap_def)
  then have s: "shuffle_draws 2 (draws ?e 0 2) [0, 1, 2] = [0, 2, 1 :: nat]"
    by (simp only: dr)
  have three: "(3::nat) - 1 = 2" by simp
  have d: "is_unit_double seven_tenths \<and> (7::nat) \<le> 9 \<and> (9::nat) < 2 ^ 52"
    by (simp add: is_unit_double_def seven_tenths_def)
  have f: "Math_floor_times seven_tenths (9 + 1) = 7"
    unfolding seven_tenths_def by code_simp
  have below: "real_of_unit seven_tenths < 7 / 10"
    by (simp add: real_of_unit_def seven_tenths_def)
  note inst = fisher_yates_unbiased [where e = "?e" and r = 0 and n = 3 and p = "[2, 1, 0]"
      and u = seven_tenths and j = 7 and i = 9]
  from inst d f have "real 7 / real (9 + 1) - 1 / 2 ^ 53 < real_of_unit seven_tenths"
    by blast
  then have above: "7 / 10 - 1 / 2 ^ 53 < real_of_unit seven_tenths" by simp
  from inst m have reach: "\<exists>rnd. (\<forall>k. is_unit_double (rnd k))
      \<and> fst (shuffle (?e\<lparr>Math_random := rnd\<rparr>) 0 (3 - 1) [0..<3]) = [2, 1, 0]"
    by simp
  from f have f': "Math_floor_times seven_tenths 10 = 7" by simp
  show ?thesis
    using inst example_random_ok [of "\<lambda>p. Inr []"] m reach f' below above
    unfolding three u s by simp
qed

section \<open>The presented order values\<close>

lemma present_album_tracks:
  "tracks (fst (present_album e r a)) =
     map (\<lambda>index. (sort_key order (tracks a) ! index)
            \<lparr>order := enat (fst (shuffle e r (length (tracks a) - 1)
                                  [0..<length (tracks a)]) ! index)\<rparr>)
       [0..<length (tracks a)]"
  by (simp add: present_album_def Let_def split: prod.splits)

lemma present_album_orders:
  assumes "random_ok e"
  shows "map order (tracks (fst (present_album e r a)))
      = map enat (shuffle_draws (length (tracks a) - 1) (draws e r (length (tracks a) - 1))
          [0..<length (tracks a)])"
proof -
  let ?n = "length (tracks a)"
  let ?p = "shuffle_draws (?n - 1) (draws e r (?n - 1)) [0..<?n]"
  have "map order (tracks (fst (present_album e r a)))
      = map (\<lambda>index. enat (?p ! index)) [0..<?n]"
    by (simp add: present_album_tracks shuffle_draws_eq o_def)
  also have "\<dots> = map enat (map (\<lambda>index. ?p ! index) [0..<length ?p])" by (simp add: o_def)
  also have "\<dots> = map enat ?p" by (simp only: map_nth)
  finally show ?thesis .
qed

lemma present_album_permutation:
  assumes "random_ok e"
  shows "mset (map order (tracks (fst (present_album e r a))))
      = mset (map enat [0..<length (tracks (fst (present_album e r a)))])"
proof -
  let ?n = "length (tracks a)"
  have len: "length (tracks (fst (present_album e r a))) = ?n"
    by (simp add: present_album_tracks)
  have "mset (shuffle_draws (?n - 1) (draws e r (?n - 1)) [0..<?n]) = mset [0..<?n]"
  proof (cases "?n = 0")
    case True
    then show ?thesis by simp
  next
    case False
    then show ?thesis
      using valid_draws_draws [OF assms, of "?n - 1" r]
      by (intro mset_shuffle_draws) simp_all
  qed
  then have "mset (map enat (shuffle_draws (?n - 1) (draws e r (?n - 1)) [0..<?n]))
      = mset (map enat [0..<?n])"
    by (simp only: mset_map)
  then show ?thesis
    by (simp only: present_album_orders [OF assms] len)
qed

lemma map_present_member:
  "a' \<in> set (map_present e r as) \<Longrightarrow> \<exists>r' a. a \<in> set as \<and> a' = fst (present_album e r' a)"
proof (induction as arbitrary: r)
  case Nil
  then show ?case by simp
next
  case (Cons a as)
  obtain b r1 where p: "present_album e r a = (b, r1)" by (cases "present_album e r a")
  from Cons.prems p have "a' = b \<or> a' \<in> set (map_present e r1 as)" by simp
  then show ?case
  proof
    assume "a' = b"
    then have "a' = fst (present_album e r a)" by (simp add: p)
    then show ?thesis by auto
  next
    assume "a' \<in> set (map_present e r1 as)"
    from Cons.IH [OF this] show ?thesis by auto
  qed
qed

lemma track_json_inj: "track_json t = track_json t' \<Longrightarrow> t = t'"
  by (cases t, cases t') (simp add: track_json_def split: enat.splits)

lemma album_json_inj: "album_json a = album_json a' \<Longrightarrow> a = a'"
proof -
  assume eq: "album_json a = album_json a'"
  have "inj track_json" by (rule injI) (rule track_json_inj)
  then have "map track_json (tracks a) = map track_json (tracks a') \<Longrightarrow> tracks a = tracks a'"
    by (simp add: inj_map_eq_map)
  with eq show ?thesis
    by (cases a, cases a') (auto simp: album_json_def split: option.splits)
qed

lemma success_body_inj: "success_body as = success_body bs \<Longrightarrow> as = bs"
proof -
  assume eq: "success_body as = success_body bs"
  have "inj album_json" by (rule injI) (rule album_json_inj)
  with eq show ?thesis by (simp add: success_body_def inj_map_eq_map)
qed

lemma get_albums_success:
  assumes "body (fst (get_albums e)) = success_body albums"
  shows "\<exists>Contents st. listObjectsV2 e (listing_request e) = Inr Contents
          \<and> group_albums e Contents = Inr st \<and> albums = formattedAlbums e st
          \<and> get_albums e = (\<lparr>status = 200, body = success_body albums\<rparr>, [listing_request e])"
proof -
  have ne: "body (handleS3Error e err) \<noteq> success_body albums" for err
    by (simp add: handleS3Error_def success_body_def)
  show ?thesis
  proof (cases "credentialsVerified e")
    case False
    with assms show ?thesis by (simp add: get_albums_def success_body_def)
  next
    case True
    show ?thesis
    proof (cases "listObjectsV2 e (listing_request e)")
      case (Inl err)
      with True assms ne show ?thesis by (simp add: get_albums_def)
    next
      case (Inr Contents)
      show ?thesis
      proof (cases "group_albums e Contents")
        case (Inl err)
        with True Inr assms ne show ?thesis by (simp add: get_albums_def)
      next
        case st: (Inr st)
        with True Inr assms have "success_body (formattedAlbums e st) = success_body albums"
          by (simp add: get_albums_def)
        then have "albums = formattedAlbums e st" by (simp add: success_body_inj)
        with True Inr st show ?thesis by (simp add: get_albums_def)
      qed
    qed
  qed
qed

text \<open>
  C1. When the random source stays in \<open>[0, 1)\<close>, every album of a success response of
  \<^verbatim>\<open>GET /albums\<close> with \<open>N\<close> tracks carries the order values \<open>0, ..., N - 1\<close>, each
  exactly once, whatever track numbers were parsed.
\<close>

theorem order_values_permutation:
  assumes "random_ok e"
    and "body (fst (get_albums e)) = success_body albums"
    and "a \<in> set albums"
  shows "mset (map order (tracks a)) = mset (map enat [0..<length (tracks a)])
    \<and> distinct (map order (tracks a))
    \<and> set (map order (tracks a)) = enat ` {0..<length (tracks a)}"
proof -
  from get_albums_success [OF assms(2)] obtain st where "albums = formattedAlbums e st"
    by blast
  with assms(3) obtain r' a0 where "a = fst (present_album e r' a0)"
    unfolding formattedAlbums_def by (blast dest: map_present_member)
  then have m: "mset (map order (tracks a)) = mset (map enat [0..<length (tracks a)])"
    using present_album_permutation [OF assms(1)] by simp
  have d: "distinct (map enat [0..<length (tracks a)])"
    by (simp add: distinct_map inj_on_def)
  have "distinct (map order (tracks a))"
    using mset_eq_imp_distinct_iff [OF m] d by simp
  moreover have "set (map order (tracks a)) = enat ` {0..<length (tracks a)}"
    using mset_eq_setD [OF m] by simp
  ultimately show ?thesis using m by simp
qed

theorem order_values_permutation_witness:
  "mset (map order (tracks example_album)) = mset (map enat [0..<length (tracks example_album)])
   \<and> map order (tracks example_album) = [0, 2, 1]"
proof -
  have "body (fst (get_albums (example_env (\<lambda>p. Inr example_keys))))
      = success_body [example_album]"
    by (simp add: example_response)
  then have "mset (map order (tracks example_album))
      = mset (map enat [0..<length (tracks example_album)])"
    using order_values_permutation [of "example_env (\<lambda>p. Inr example_keys)"
        "[example_album]" example_album] example_random_ok
    by simp
  moreover have "map order (tracks example_album) = [0, 2, 1]"
    by (simp add: example_album_def)
  ultimately show ?thesis by simp
qed

section \<open>Album name and artist\<close>

lemma str_includes_iff: "str_includes s sub \<longleftrightarrow> (\<exists>pre suf. s = pre @ sub @ suf)"
proof (induction s)
  case Nil
  then show ?case by auto
next
  case (Cons c cs)
  show ?case
  proof
    assume "str_includes (c # cs) sub"
    then consider "prefix sub (c # cs)" | "str_includes cs sub" by auto
    then show "\<exists>pre suf. c # cs = pre @ sub @ suf"
    proof cases
      case 1
      then obtain suf where "c # cs = sub @ suf" by (auto simp: prefix_def)
      then have "c # cs = [] @ sub @ suf" by simp
      then show ?thesis by blast
    next
      case 2
      with Cons.IH obtain pre suf where "cs = pre @ sub @ suf" by blast
      then have "c # cs = (c # pre) @ sub @ suf" by simp
      then show ?thesis by blast
    qed
  next
    assume "\<exists>pre suf. c # cs = pre @ sub @ suf"
    then obtain pre suf where eq: "c # cs = pre @ sub @ suf" by blast
    show "str_includes (c # cs) sub"
    proof (cases pre)
      case Nil
      with eq have "prefix sub (c # cs)" by (simp add: prefix_def)
      then show ?thesis by simp
    next
      case (Cons p ps)
      with eq have "cs = ps @ sub @ suf" by simp
      with Cons.IH have "str_includes cs sub" by blast
      then show ?thesis by simp
    qed
  qed
qed

lemma split_from_pieces:
  "sep \<noteq> [] \<Longrightarrow>
   split_from sep acc s =
     (if str_includes s sep
      then (rev acc @ before_first sep s) # split_from sep [] (after_first sep s)
      else [rev acc @ s])"
proof (induction sep acc s rule: split_from.induct)
  case (1 sep acc)
  then show ?case by simp
next
  case (2 sep acc c cs)
  show ?case
  proof (cases "prefix sep (c # cs)")
    case True
    with "2.prems" have "drop (length sep) (c # cs) = drop (length sep - 1) cs"
      by (cases sep) simp_all
    with True "2.prems" show ?thesis by simp
  next
    case False
    with "2.prems" "2.IH"(2) show ?thesis by simp
  qed
qed

lemma before_first_none: "\<not> str_includes s sep \<Longrightarrow> before_first sep s = s"
  by (induction s) auto

lemma split_first_two:
  assumes "sep \<noteq> []" and "str_includes s sep"
  shows "split s sep ! 0 = before_first sep s"
    and "split s sep ! 1 = before_first sep (after_first sep s)"
    and "2 \<le> length (split s sep)"
proof -
  have eq: "split s sep = before_first sep s # split_from sep [] (after_first sep s)"
    using assms by (simp add: split_def split_from_pieces [of sep "[]" s])
  have hd2: "split_from sep [] (after_first sep s) ! 0 = before_first sep (after_first sep s)"
    using assms(1) by (simp add: split_from_pieces [of sep "[]" "after_first sep s"] before_first_none)
  have ne: "split_from sep [] (after_first sep s) \<noteq> []"
    using assms(1) by (simp add: split_from_pieces [of sep "[]" "after_first sep s"])
  show "split s sep ! 0 = before_first sep s" by (simp add: eq)
  show "split s sep ! 1 = before_first sep (after_first sep s)" using hd2 by (simp add: eq)
  show "2 \<le> length (split s sep)" using ne by (cases "split_from sep [] (after_first sep s)") (simp_all add: eq)
qed

lemma first_occurrence:
  "str_includes s sep \<Longrightarrow> s = before_first sep s @ sep @ after_first sep s"
proof (induction s)
  case Nil
  then show ?case by simp
next
  case (Cons c cs)
  show ?case
  proof (cases "prefix sep (c # cs)")
    case True
    then show ?thesis by (auto simp: prefix_def)
  next
    case False
    with Cons show ?thesis by simp
  qed
qed

lemma first_occurrence_least:
  "s = pre @ sep @ post \<Longrightarrow> length (before_first sep s) \<le> length pre"
proof (induction s arbitrary: pre)
  case Nil
  then show ?case by simp
next
  case (Cons c cs)
  show ?case
  proof (cases "prefix sep (c # cs)")
    case True
    then show ?thesis by simp
  next
    case False
    with Cons.prems have "pre \<noteq> []" by (auto simp: prefix_def)
    then obtain p ps where pre: "pre = p # ps" by (cases pre) auto
    with Cons.prems have "cs = ps @ sep @ post" by simp
    from Cons.IH [OF this] False pre show ?thesis by simp
  qed
qed

text \<open>
  C2, as the specification states it, fails: for the folder \<^verbatim>\<open>A - B - C\<close> the artist is
  \<^verbatim>\<open>B\<close>, not \<^verbatim>\<open>B - C\<close>.
\<close>

theorem artist_counterexample:
  "album_name_artist ''A - B - C'' = (''A'', ''B'')
   \<and> claimed_album_name_artist ''A - B - C'' = (''A'', ''B - C'')"
  by (simp add: album_name_artist_def claimed_album_name_artist_def split_def trim_def
      is_space_def)

text \<open>
  C2, amended. For a folder name that contains \<^verbatim>\<open>" - "\<close>, \<open>albumName\<close> is the trimmed
  text in front of its first occurrence, and \<open>artist\<close> is the trimmed text between that
  occurrence and the next occurrence behind it (the whole rest when there is no other).
  For a folder name without the separator, \<open>albumName\<close> is the folder name as it is and
  \<open>artist\<close> is \<^verbatim>\<open>Unknown Artist\<close>.
\<close>

theorem album_name_artist_split:
  "(str_includes albumInfo '' - '' \<longleftrightarrow> (\<exists>pre post. albumInfo = pre @ '' - '' @ post))
   \<and> (str_includes albumInfo '' - '' \<longrightarrow>
        album_name_artist albumInfo =
          (trim (before_first '' - '' albumInfo),
           trim (before_first '' - '' (after_first '' - '' albumInfo)))
        \<and> albumInfo = before_first '' - '' albumInfo @ '' - '' @ after_first '' - '' albumInfo
        \<and> (\<forall>pre post. albumInfo = pre @ '' - '' @ post
              \<longrightarrow> length (before_first '' - '' albumInfo) \<le> length pre)
        \<and> (if str_includes (after_first '' - '' albumInfo) '' - ''
            then after_first '' - '' albumInfo =
                   before_first '' - '' (after_first '' - '' albumInfo) @ '' - ''
                   @ after_first '' - '' (after_first '' - '' albumInfo)
            else before_first '' - '' (after_first '' - '' albumInfo)
                   = after_first '' - '' albumInfo))
   \<and> (\<not> str_includes albumInfo '' - '' \<longrightarrow>
        album_name_artist albumInfo = (albumInfo, ''Unknown Artist''))"
proof (intro conjI impI allI)
  show "str_includes albumInfo '' - '' \<longleftrightarrow> (\<exists>pre post. albumInfo = pre @ '' - '' @ post)"
    by (rule str_includes_iff)
next
  assume inc: "str_includes albumInfo '' - ''"
  have sep: "'' - '' \<noteq> []" by simp
  show "album_name_artist albumInfo =
          (trim (before_first '' - '' albumInfo),
           trim (before_first '' - '' (after_first '' - '' albumInfo)))"
    using inc split_first_two(1,2) [OF sep inc]
    by (simp only: album_name_artist_def Let_def if_True)
  show "albumInfo = before_first '' - '' albumInfo @ '' - '' @ after_first '' - '' albumInfo"
    using inc by (rule first_occurrence)
  show "if str_includes (after_first '' - '' albumInfo) '' - ''
        then after_first '' - '' albumInfo =
               before_first '' - '' (after_first '' - '' albumInfo) @ '' - ''
               @ after_first '' - '' (after_first '' - '' albumInfo)
        else before_first '' - '' (after_first '' - '' albumInfo)
               = after_first '' - '' albumInfo"
    using first_occurrence [of "after_first '' - '' albumInfo" "'' - ''"]
      before_first_none [of "after_first '' - '' albumInfo" "'' - ''"]
    by (simp only: split: if_split) blast
next
  fix pre post
  assume "albumInfo = pre @ '' - '' @ post"
  then show "length (before_first '' - '' albumInfo) \<le> length pre"
    by (rule first_occurrence_least)
next
  assume "\<not> str_includes albumInfo '' - ''"
  then show "album_name_artist albumInfo = (albumInfo, ''Unknown Artist'')"
    by (simp add: album_name_artist_def)
qed

theorem album_name_artist_split_witness:
  "album_name_artist '' Night Drive  - Lo Fi Kid - Deluxe '' = (''Night Drive'', ''Lo Fi Kid'')
   \<and> album_name_artist ''Mixtape'' = (''Mixtape'', ''Unknown Artist'')"
proof -
  have a: "str_includes '' Night Drive  - Lo Fi Kid - Deluxe '' '' - ''" by simp
  have b: "\<not> str_includes ''Mixtape'' '' - ''" by simp
  have "album_name_artist '' Night Drive  - Lo Fi Kid - Deluxe ''
      = (trim (before_first '' - '' '' Night Drive  - Lo Fi Kid - Deluxe ''),
         trim (before_first '' - '' (after_first '' - '' '' Night Drive  - Lo Fi Kid - Deluxe '')))"
    using album_name_artist_split [of "'' Night Drive  - Lo Fi Kid - Deluxe ''"] a by blast
  moreover have "album_name_artist ''Mixtape'' = (''Mixtape'', ''Unknown Artist'')"
    using album_name_artist_split [of "''Mixtape''"] b by blast
  ultimately show ?thesis by (simp add: trim_def is_space_def)
qed

section \<open>The pattern of a track file name\<close>






lemma hyphen_class [simp]: "\<not> is_digit CHR ''-''" "\<not> is_space CHR ''-''"
  by (simp_all add: is_digit_def is_space_def)









section \<open>One step of the grouping loop\<close>

lemma unique_id_albumMap [simp]: "unique_id e (st\<lparr>albumMap := m\<rparr>) a n = unique_id e st a n"
  by (simp add: unique_id_def)

lemma get_property_Own: "get_property st k = Own a \<longleftrightarrow> map_of (albumMap st) k = Some a"
  by (simp add: get_property_def split: option.splits)

lemma get_property_Undefined:
  "get_property st k = Undefined
     \<longleftrightarrow> map_of (albumMap st) k = None \<and> k \<notin> set (prototype_names st)"
  by (simp add: get_property_def split: option.splits)

lemma get_property_Inherited:
  "get_property st k = Inherited
     \<longleftrightarrow> map_of (albumMap st) k = None \<and> k \<in> set (prototype_names st)"
  by (simp add: get_property_def split: option.splits)

lemma map_entry_absent: "map_of m k = None \<Longrightarrow> AList.map_entry k f m = m"
  by (induction m) (auto split: if_splits)

lemma group_item_unfold:
  "group_item e Key a f st =
     (let m1 = (if map_of (albumMap st) a = None \<and> a \<notin> set (prototype_names st)
                then albumMap st @ [(a, new_album a)] else albumMap st)
      in if is_cover f
         then Inr (st\<lparr>albumMap :=
                AList.map_entry a (\<lambda>x. x\<lparr>coverUrl := Some (resolve_url e Key)\<rparr>) m1,
                prototype_names :=
                  (if map_of (albumMap st) a = None \<and> a \<in> set (prototype_names st)
                      \<and> a = ''__proto__''
                   then List.insert ''coverUrl'' (prototype_names st)
                   else prototype_names st)\<rparr>)
         else if map_of (albumMap st) a = None \<and> a \<in> set (prototype_names st)
         then Inl TypeError_push
         else Inr (st\<lparr>albumMap :=
                AList.map_entry a (\<lambda>x. x\<lparr>tracks := tracks x @ [new_track e st Key a f]\<rparr>) m1,
                clock_calls := Suc (clock_calls st), random_calls := Suc (random_calls st)\<rparr>))"
proof (cases "get_property st a")
  case Undefined
  then have u: "map_of (albumMap st) a = None" "a \<notin> set (prototype_names st)"
    by (simp_all add: get_property_Undefined)
  have own: "get_property (st\<lparr>albumMap := albumMap st @ [(a, new_album a)]\<rparr>) a
      = Own (new_album a)"
    using u by (simp add: get_property_Own map_add_def)
  have own2: "get_property (st\<lparr>albumMap := albumMap st @ [(a, new_album a)],
        clock_calls := Suc (clock_calls st), random_calls := Suc (random_calls st)\<rparr>) a
      = Own (new_album a)"
    using u by (simp add: get_property_Own map_add_def)
  show ?thesis
    using Undefined u own own2
    by (simp add: group_item_def Let_def split_beta new_album_def new_track_def)
next
  case (Own alb)
  then have u: "map_of (albumMap st) a = Some alb" by (simp add: get_property_Own)
  have own2: "get_property (st\<lparr>clock_calls := Suc (clock_calls st),
        random_calls := Suc (random_calls st)\<rparr>) a = Own alb"
    using u by (simp add: get_property_Own)
  show ?thesis
    using Own u own2
    by (simp add: group_item_def Let_def split_beta new_track_def)
next
  case Inherited
  then have u: "map_of (albumMap st) a = None" "a \<in> set (prototype_names st)"
    by (simp_all add: get_property_Inherited)
  have inh2: "get_property (st\<lparr>clock_calls := Suc (clock_calls st),
        random_calls := Suc (random_calls st)\<rparr>) a = Inherited"
    using u by (simp add: get_property_Inherited)
  show ?thesis
    using Inherited u inh2
    by (auto simp: group_item_def Let_def split_beta map_entry_absent)
qed

lemma map_of_snoc:
  "map_of (m @ [(k, v)]) k' = (case map_of m k' of Some x \<Rightarrow> Some x
     | None \<Rightarrow> if k' = k then Some v else None)"
  by (simp add: map_add_def split: option.splits)

lemma group_item_track:
  assumes "\<not> is_cover f" and "group_item e Key a f st = Inr st'"
  shows "\<exists>alb. map_of (albumMap st') a = Some alb \<and> tracks alb \<noteq> []
     \<and> last (tracks alb) = new_track e st Key a f
     \<and> butlast (tracks alb) = (case map_of (albumMap st) a of None \<Rightarrow> [] | Some old \<Rightarrow> tracks old)"
proof (cases "map_of (albumMap st) a")
  case None
  with assms have np: "a \<notin> set (prototype_names st)"
    by (auto simp: group_item_unfold Let_def split: if_splits)
  with None assms have "albumMap st' = AList.map_entry a
      (\<lambda>x. x\<lparr>tracks := tracks x @ [new_track e st Key a f]\<rparr>) (albumMap st @ [(a, new_album a)])"
    by (auto simp: group_item_unfold Let_def)
  then have "map_of (albumMap st') a
      = Some ((new_album a)\<lparr>tracks := tracks (new_album a) @ [new_track e st Key a f]\<rparr>)"
    using None by (simp add: map_of_map_entry map_add_def)
  then show ?thesis using None by (simp add: new_album_def)
next
  case (Some old)
  with assms have "albumMap st' = AList.map_entry a
      (\<lambda>x. x\<lparr>tracks := tracks x @ [new_track e st Key a f]\<rparr>) (albumMap st)"
    by (auto simp: group_item_unfold Let_def)
  then have "map_of (albumMap st') a = Some (old\<lparr>tracks := tracks old @ [new_track e st Key a f]\<rparr>)"
    using Some by (simp add: map_of_map_entry)
  then show ?thesis using Some by simp
qed

section \<open>The number and the name of a track\<close>




section \<open>The grouping loop against the listing\<close>

lemma first_seen_snoc:
  "first_seen (xs @ [x]) = (if x \<in> set xs then first_seen xs else first_seen xs @ [x])"
  by (simp add: first_seen_def)

lemma set_first_seen [simp]: "set (first_seen xs) = set xs"
  by (simp add: first_seen_def)

lemma distinct_first_seen [simp]: "distinct (first_seen xs)"
  by (simp add: first_seen_def)

lemma first_seen_Nil [simp]: "first_seen [] = []"
  by (simp add: first_seen_def)

lemma folder_items_snoc:
  "folder_items e (xs @ [x]) a =
     folder_items e xs a
     @ (if map_option fst (item_parts e x) = Some a then [(x, snd (the (item_parts e x)))] else [])"
  by (simp add: folder_items_def)

lemma folder_names_snoc:
  "folder_names e (xs @ [x]) =
     folder_names e xs @ (case item_parts e x of None \<Rightarrow> [] | Some p \<Rightarrow> [fst p])"
  by (simp add: folder_names_def split: option.splits)

lemma folder_items_unseen:
  "a \<notin> set (folder_names e xs) \<Longrightarrow> folder_items e xs a = []"
proof -
  assume n: "a \<notin> set (folder_names e xs)"
  have "filter (\<lambda>Key. map_option fst (item_parts e Key) = Some a) xs = []"
  proof (rule ccontr)
    assume "filter (\<lambda>Key. map_option fst (item_parts e Key) = Some a) xs \<noteq> []"
    then obtain k where k: "k \<in> set xs" "map_option fst (item_parts e k) = Some a"
      by (auto simp: filter_empty_conv)
    then have "item_parts e k \<noteq> None" "fst (the (item_parts e k)) = a" by auto
    with k(1) have "a \<in> set (folder_names e xs)"
      by (auto simp: folder_names_def)
    with n show False by simp
  qed
  then show ?thesis by (simp add: folder_items_def)
qed

lemma cover_of_snoc:
  "cover_of e (items @ [(k, f)]) = (if is_cover f then Some (resolve_url e k) else cover_of e items)"
  by (simp add: cover_of_def Let_def)

lemma parsed_tracks_snoc:
  "parsed_tracks e (items @ [(k, f)]) =
     parsed_tracks e items
     @ (if is_cover f then []
        else [(fst (track_number_name f), snd (track_number_name f), resolve_url e k)])"
  by (simp add: parsed_tracks_def)

lemma map_fst_map_entry: "map fst (AList.map_entry k f m) = map fst m"
  by (induction m) auto

lemma group_item_result:
  assumes "group_item e Key a0 f st = Inr st'"
  defines "upd \<equiv> (if is_cover f then (\<lambda>x. x\<lparr>coverUrl := Some (resolve_url e Key)\<rparr>)
                   else (\<lambda>x. x\<lparr>tracks := tracks x @ [new_track e st Key a0 f]\<rparr>))"
  shows "map fst (albumMap st') =
           (if map_of (albumMap st) a0 = None \<and> a0 \<notin> set (prototype_names st)
            then map fst (albumMap st) @ [a0] else map fst (albumMap st))"
    and "map_of (albumMap st') a =
           (if a = a0
            then (case map_of (albumMap st) a0 of
                    Some alb \<Rightarrow> Some (upd alb)
                  | None \<Rightarrow> if a0 \<notin> set (prototype_names st)
                            then Some (upd (new_album a0)) else None)
            else map_of (albumMap st) a)"
    and "prototype_names st' =
           (if is_cover f \<and> map_of (albumMap st) a0 = None \<and> a0 \<in> set (prototype_names st)
               \<and> a0 = ''__proto__''
            then List.insert ''coverUrl'' (prototype_names st) else prototype_names st)"
proof -
  let ?m1 = "if map_of (albumMap st) a0 = None \<and> a0 \<notin> set (prototype_names st)
             then albumMap st @ [(a0, new_album a0)] else albumMap st"
  have m': "albumMap st' = AList.map_entry a0 upd ?m1"
    using assms(1) unfolding upd_def group_item_unfold Let_def
    by (auto split: if_splits)
  show "map fst (albumMap st') =
           (if map_of (albumMap st) a0 = None \<and> a0 \<notin> set (prototype_names st)
            then map fst (albumMap st) @ [a0] else map fst (albumMap st))"
    by (simp add: m' map_fst_map_entry)
  show "map_of (albumMap st') a =
           (if a = a0
            then (case map_of (albumMap st) a0 of
                    Some alb \<Rightarrow> Some (upd alb)
                  | None \<Rightarrow> if a0 \<notin> set (prototype_names st)
                            then Some (upd (new_album a0)) else None)
            else map_of (albumMap st) a)"
    by (auto simp: m' map_of_map_entry map_add_def split: option.splits)
  show "prototype_names st' =
           (if is_cover f \<and> map_of (albumMap st) a0 = None \<and> a0 \<in> set (prototype_names st)
               \<and> a0 = ''__proto__''
            then List.insert ''coverUrl'' (prototype_names st) else prototype_names st)"
    using assms(1) unfolding group_item_unfold Let_def
    by (auto split: if_splits)
qed

lemma grouped_initial: "grouped e [] (initial_state e)"
  by (simp add: grouped_def initial_state_def folder_names_def)

lemma agrees_new: "album_agrees e a [] (new_album a)"
  by (simp add: album_agrees_def new_album_def cover_of_def parsed_tracks_def)

lemma agrees_cover:
  "album_agrees e a items alb \<Longrightarrow> is_cover f \<Longrightarrow>
   album_agrees e a (items @ [(k, f)]) (alb\<lparr>coverUrl := Some (resolve_url e k)\<rparr>)"
  by (simp add: album_agrees_def cover_of_snoc parsed_tracks_snoc)

lemma agrees_track:
  "album_agrees e a items alb \<Longrightarrow> \<not> is_cover f \<Longrightarrow>
   album_agrees e a (items @ [(k, f)]) (alb\<lparr>tracks := tracks alb @ [new_track e st k a f]\<rparr>)"
  by (simp add: album_agrees_def cover_of_snoc parsed_tracks_snoc track_view_def new_track_def)

lemma grouped_keys_listed:
  assumes "grouped e xs st"
  shows "fst ` set (albumMap st) \<subseteq> set (folder_names e xs)"
proof -
  from assms have "map fst (albumMap st)
      = first_seen (filter (\<lambda>a. a \<in> fst ` set (albumMap st)) (folder_names e xs))"
    by (simp add: grouped_def)
  then have "set (map fst (albumMap st))
      = set (first_seen (filter (\<lambda>a. a \<in> fst ` set (albumMap st)) (folder_names e xs)))"
    by simp
  then show ?thesis by auto
qed

lemma grouped_step:
  assumes g: "grouped e xs st" and step: "process_item e x st = Inr st'"
  shows "grouped e (xs @ [x]) st'"
proof (cases "item_parts e x")
  case None
  with step have "st' = st" by (simp add: process_item_def)
  moreover have "folder_items e (xs @ [x]) a = folder_items e xs a" for a
    using None by (simp add: folder_items_snoc)
  moreover have "folder_names e (xs @ [x]) = folder_names e xs"
    using None by (simp add: folder_names_snoc)
  ultimately show ?thesis
    using g by (simp add: grouped_def)
next
  case (Some p)
  obtain a0 f where p: "p = (a0, f)" by (cases p)
  with Some have parts: "item_parts e x = Some (a0, f)" by simp
  with step have gi: "group_item e x a0 f st = Inr st'" by (simp add: process_item_def)
  let ?m = "albumMap st"
  let ?K = "fst ` set ?m"
  let ?names = "folder_names e xs"
  define created where "created \<longleftrightarrow> map_of ?m a0 = None \<and> a0 \<notin> set (prototype_names st)"
  let ?upd = "if is_cover f then (\<lambda>x'. x'\<lparr>coverUrl := Some (resolve_url e x)\<rparr>)
              else (\<lambda>x'. x'\<lparr>tracks := tracks x' @ [new_track e st x a0 f]\<rparr>)"
  have names': "folder_names e (xs @ [x]) = ?names @ [a0]"
    using parts by (simp add: folder_names_snoc)
  have K1: "map fst ?m = first_seen (filter (\<lambda>a. a \<in> ?K) ?names)"
    and K2: "\<forall>a\<in>set ?names. a \<notin> set (prototype_names st) \<longrightarrow> a \<in> ?K"
    and P1: "set (inherited_names e) \<subseteq> set (prototype_names st)"
    and P3: "''__proto__'' \<notin> set ?names \<longrightarrow> prototype_names st = inherited_names e"
    and V: "\<And>a alb. map_of ?m a = Some alb \<Longrightarrow> album_agrees e a (folder_items e xs a) alb"
    using g by (simp_all add: grouped_def)
  have absent: "map_of ?m a0 = None \<longleftrightarrow> a0 \<notin> ?K"
    by (simp add: map_of_eq_None_iff)
  have keys': "map fst (albumMap st') = (if created then map fst ?m @ [a0] else map fst ?m)"
    using group_item_result(1) [OF gi] by (simp add: created_def)
  have "set (map fst (albumMap st')) = (if created then insert a0 ?K else ?K)"
    by (simp only: keys') simp
  then have K': "fst ` set (albumMap st') = (if created then insert a0 ?K else ?K)"
    by simp
  have proto': "set (prototype_names st) \<subseteq> set (prototype_names st')"
    using group_item_result(3) [OF gi] by auto
  have unseen: "a0 \<notin> set ?names" if "created"
  proof
    assume "a0 \<in> set ?names"
    with K2 that have "a0 \<in> ?K" by (auto simp: created_def)
    with that absent show False by (simp add: created_def)
  qed
  have listed: "?K \<subseteq> set ?names" using g by (rule grouped_keys_listed)
  have k1: "map fst (albumMap st')
      = first_seen (filter (\<lambda>a. a \<in> fst ` set (albumMap st')) (folder_names e (xs @ [x])))"
  proof (cases created)
    case True
    then have n: "a0 \<notin> set ?names" by (rule unseen)
    have "filter (\<lambda>a. a \<in> insert a0 ?K) ?names = filter (\<lambda>a. a \<in> ?K) ?names"
      using n by (intro filter_cong) auto
    then have "filter (\<lambda>a. a \<in> insert a0 ?K) (?names @ [a0]) = filter (\<lambda>a. a \<in> ?K) ?names @ [a0]"
      by simp
    moreover have "a0 \<notin> set (filter (\<lambda>a. a \<in> ?K) ?names)" using n by simp
    ultimately have "first_seen (filter (\<lambda>a. a \<in> insert a0 ?K) (?names @ [a0]))
        = first_seen (filter (\<lambda>a. a \<in> ?K) ?names) @ [a0]"
      by (simp add: first_seen_snoc)
    then have "first_seen (filter (\<lambda>a. a \<in> insert a0 ?K) (?names @ [a0])) = map fst ?m @ [a0]"
      by (simp only: K1 [symmetric])
    moreover from True have "map fst (albumMap st') = map fst ?m @ [a0]"
      and "fst ` set (albumMap st') = insert a0 ?K"
      by (simp_all only: keys' K' if_True)
    ultimately show ?thesis by (simp only: names')
  next
    case False
    then have same: "map fst (albumMap st') = map fst ?m" "fst ` set (albumMap st') = ?K"
      by (simp_all only: keys' K' if_False)
    have "first_seen (filter (\<lambda>a. a \<in> ?K) (?names @ [a0]))
        = first_seen (filter (\<lambda>a. a \<in> ?K) ?names)"
    proof (cases "a0 \<in> ?K")
      case True
      with listed have "a0 \<in> set (filter (\<lambda>a. a \<in> ?K) ?names)" by auto
      then show ?thesis using True by (simp add: first_seen_snoc)
    next
      case notin: False
      then show ?thesis by simp
    qed
    then have "first_seen (filter (\<lambda>a. a \<in> ?K) (?names @ [a0])) = map fst ?m"
      by (simp only: K1 [symmetric])
    then show ?thesis by (simp only: same names')
  qed
  have k2: "\<forall>a\<in>set (folder_names e (xs @ [x])).
      a \<notin> set (prototype_names st') \<longrightarrow> a \<in> fst ` set (albumMap st')"
  proof (intro ballI impI)
    fix a
    assume a: "a \<in> set (folder_names e (xs @ [x]))" and np: "a \<notin> set (prototype_names st')"
    from np proto' have np0: "a \<notin> set (prototype_names st)" by auto
    show "a \<in> fst ` set (albumMap st')"
    proof (cases "a \<in> set ?names")
      case True
      with K2 np0 have "a \<in> ?K" by blast
      then show ?thesis by (simp add: K')
    next
      case False
      with a have "a = a0" by (simp add: names')
      with np0 absent show ?thesis by (auto simp: K' created_def)
    qed
  qed
  have p1: "set (inherited_names e) \<subseteq> set (prototype_names st')"
    using P1 proto' by blast
  have p3: "''__proto__'' \<notin> set (folder_names e (xs @ [x]))
      \<longrightarrow> prototype_names st' = inherited_names e"
  proof
    assume "''__proto__'' \<notin> set (folder_names e (xs @ [x]))"
    then have "''__proto__'' \<notin> set ?names" and "a0 \<noteq> ''__proto__''"
      by (auto simp: names')
    with P3 group_item_result(3) [OF gi] show "prototype_names st' = inherited_names e"
      by simp
  qed
  have v: "album_agrees e a (folder_items e (xs @ [x]) a) alb'"
    if look: "map_of (albumMap st') a = Some alb'" for a alb'
  proof (cases "a = a0")
    case False
    with look group_item_result(2) [OF gi, of a] have "map_of ?m a = Some alb'" by simp
    moreover have "folder_items e (xs @ [x]) a = folder_items e xs a"
      using False parts by (simp add: folder_items_snoc)
    ultimately show ?thesis using V by simp
  next
    case True
    have items: "folder_items e (xs @ [x]) a0 = folder_items e xs a0 @ [(x, f)]"
      using parts by (simp add: folder_items_snoc)
    have "\<exists>old. alb' = ?upd old \<and> album_agrees e a0 (folder_items e xs a0) old"
    proof (cases "map_of ?m a0")
      case None
      with look True group_item_result(2) [OF gi, of a0]
      have np: "a0 \<notin> set (prototype_names st)" and alb': "alb' = ?upd (new_album a0)"
        by (auto split: if_splits)
      from None np have "a0 \<notin> set ?names" by (intro unseen) (simp add: created_def)
      then have "folder_items e xs a0 = []" by (rule folder_items_unseen)
      with alb' agrees_new [of e a0] show ?thesis by auto
    next
      case (Some old)
      with look True group_item_result(2) [OF gi, of a0] have "alb' = ?upd old" by simp
      moreover from V Some have "album_agrees e a0 (folder_items e xs a0) old" by simp
      ultimately show ?thesis by blast
    qed
    then obtain old where alb': "alb' = ?upd old"
      and old: "album_agrees e a0 (folder_items e xs a0) old" by blast
    show ?thesis
    proof (cases "is_cover f")
      case True
      with alb' agrees_cover [OF old True, where k = x] show ?thesis
        using \<open>a = a0\<close> by (simp add: items)
    next
      case False
      with alb' agrees_track [OF old False, where k = x and st = st] show ?thesis
        using \<open>a = a0\<close> by (simp add: items)
    qed
  qed
  from k1 k2 p1 p3 v show ?thesis by (simp add: grouped_def)
qed

lemma forEach_snoc:
  "forEach f (xs @ [x]) st =
     (case forEach f xs st of Inl err \<Rightarrow> Inl err | Inr st' \<Rightarrow> f x st')"
  by (simp add: forEach_append split: sum.splits)

lemma grouped_group_albums:
  "group_albums e Contents = Inr st \<Longrightarrow> grouped e Contents st"
proof (induction Contents arbitrary: st rule: rev_induct)
  case Nil
  then show ?case by (auto simp: group_albums_def grouped_initial)
next
  case (snoc x xs)
  from snoc.prems obtain st0 where run: "group_albums e xs = Inr st0"
    and step: "process_item e x st0 = Inr st"
    by (auto simp: group_albums_def forEach_snoc split: sum.splits)
  from snoc.IH [OF run] step show ?case by (rule grouped_step)
qed

section \<open>The response against the listing\<close>

lemma insort_key_map:
  "map g (insort_key (\<lambda>x. f (g x)) x xs) = insort_key f (g x) (map g xs)"
  by (induction xs) simp_all

lemma sort_key_map: "map g (sort_key (\<lambda>x. f (g x)) xs) = sort_key f (map g xs)"
  by (induction xs) (simp_all add: insort_key_map)

lemma present_album_fields:
  "albumName (fst (present_album e r a)) = albumName a"
  "artist (fst (present_album e r a)) = artist a"
  "coverUrl (fst (present_album e r a)) = coverUrl a"
  by (simp_all add: present_album_def Let_def split: prod.splits)

lemma present_album_sequence:
  "map (\<lambda>t. (trackId t, name t, url t)) (tracks (fst (present_album e r a)))
     = map (\<lambda>t. (trackId t, name t, url t)) (sort_key order (tracks a))"
proof -
  let ?s = "sort_key order (tracks a)"
  have "map (\<lambda>t. (trackId t, name t, url t)) (tracks (fst (present_album e r a)))
      = map (\<lambda>i. (\<lambda>t. (trackId t, name t, url t)) (?s ! i)) [0..<length ?s]"
    by (simp add: present_album_tracks o_def)
  also have "\<dots> = map (\<lambda>t. (trackId t, name t, url t)) (map (\<lambda>i. ?s ! i) [0..<length ?s])"
    by (simp add: o_def)
  also have "\<dots> = map (\<lambda>t. (trackId t, name t, url t)) ?s"
    by (simp only: map_nth)
  finally show ?thesis .
qed

lemma present_album_view:
  "album_view (fst (present_album e r a))
     = (albumName a, artist a, coverUrl a,
        map (\<lambda>t. (name t, url t)) (sort_key order (tracks a)))"
proof -
  have "map (\<lambda>t. (name t, url t)) (tracks (fst (present_album e r a)))
      = map snd (map (\<lambda>t. (trackId t, name t, url t)) (tracks (fst (present_album e r a))))"
    by (simp add: o_def)
  also have "\<dots> = map snd (map (\<lambda>t. (trackId t, name t, url t)) (sort_key order (tracks a)))"
    by (simp only: present_album_sequence)
  also have "\<dots> = map (\<lambda>t. (name t, url t)) (sort_key order (tracks a))"
    by (simp add: o_def)
  finally show ?thesis
    by (simp add: album_view_def present_album_fields)
qed

lemma map_present_view:
  "map album_view (map_present e r as)
     = map (\<lambda>a. (albumName a, artist a, coverUrl a,
                 map (\<lambda>t. (name t, url t)) (sort_key order (tracks a)))) as"
proof (induction as arbitrary: r)
  case Nil
  then show ?case by simp
next
  case (Cons a as)
  obtain b r1 where p: "present_album e r a = (b, r1)" by (cases "present_album e r a")
  then have "album_view b = (albumName a, artist a, coverUrl a,
      map (\<lambda>t. (name t, url t)) (sort_key order (tracks a)))"
    using present_album_view [of e r a] by simp
  with p Cons.IH [of r1] show ?case by simp
qed

lemma length_map_present [simp]: "length (map_present e r as) = length as"
proof (induction as arbitrary: r)
  case Nil
  then show ?case by simp
next
  case (Cons a as)
  then show ?case by (simp add: split_beta Let_def)
qed

lemma agrees_view:
  assumes "album_agrees e a items alb"
  shows "(albumName alb, artist alb, coverUrl alb,
          map (\<lambda>t. (name t, url t)) (sort_key order (tracks alb)))
       = (fst (album_name_artist a), snd (album_name_artist a), cover_of e items,
          map snd (sort_key fst (parsed_tracks e items)))"
proof -
  have "map snd (sort_key fst (parsed_tracks e items))
      = map snd (sort_key fst (map track_view (tracks alb)))"
    using assms by (simp add: album_agrees_def)
  also have "sort_key fst (map track_view (tracks alb))
      = map track_view (sort_key (\<lambda>t. fst (track_view t)) (tracks alb))"
    by (simp only: sort_key_map)
  also have "(\<lambda>t. fst (track_view t)) = order"
    by (rule ext) (simp add: track_view_def)
  finally have "map snd (sort_key fst (parsed_tracks e items))
      = map (\<lambda>t. (name t, url t)) (sort_key order (tracks alb))"
    by (simp add: o_def track_view_def)
  with assms show ?thesis by (simp add: album_agrees_def)
qed

lemma ordered_keys:
  "map fst (sort_key (\<lambda>p. the (array_index (fst p)))
                (filter (\<lambda>p. array_index (fst p) \<noteq> None) m)
              @ filter (\<lambda>p. array_index (fst p) = None) m) = js_key_order (map fst m)"
proof -
  have "map fst (sort_key (\<lambda>p. the (array_index (fst p)))
          (filter (\<lambda>p. array_index (fst p) \<noteq> None) m))
      = sort_key (\<lambda>k. the (array_index k)) (map fst (filter (\<lambda>p. array_index (fst p) \<noteq> None) m))"
    by (rule sort_key_map)
  then show ?thesis
    by (simp add: js_key_order_def filter_map o_def)
qed

lemma set_js_key_order [simp]: "set (js_key_order ks) = set ks"
  by (auto simp: js_key_order_def)

lemma length_js_key_order [simp]: "length (js_key_order ks) = length ks"
  by (simp add: js_key_order_def
      sum_length_filter_compl [of "\<lambda>k. array_index k \<noteq> None" ks, simplified])

lemma js_key_order_plain: "\<forall>k\<in>set ks. array_index k = None \<Longrightarrow> js_key_order ks = ks"
  by (simp add: js_key_order_def filter_empty_conv)

lemma formatted_view:
  assumes "grouped e xs st"
  shows "map album_view (formattedAlbums e st)
     = map (expected_view e xs) (js_key_order (map fst (albumMap st)))"
proof -
  let ?m = "albumMap st"
  let ?ps = "sort_key (\<lambda>p. the (array_index (fst p)))
                (filter (\<lambda>p. array_index (fst p) \<noteq> None) ?m)
              @ filter (\<lambda>p. array_index (fst p) = None) ?m"
  have "map fst ?m = first_seen (filter (\<lambda>a. a \<in> fst ` set ?m) (folder_names e xs))"
    using assms by (simp add: grouped_def)
  then have dist: "distinct (map fst ?m)"
    using distinct_first_seen [of "filter (\<lambda>a. a \<in> fst ` set ?m) (folder_names e xs)"]
    by simp
  have each: "(albumName (snd p), artist (snd p), coverUrl (snd p),
          map (\<lambda>t. (name t, url t)) (sort_key order (tracks (snd p))))
       = expected_view e xs (fst p)" if "p \<in> set ?ps" for p
  proof -
    from that have "p \<in> set ?m" by auto
    then have "map_of ?m (fst p) = Some (snd p)" using dist by simp
    with assms have "album_agrees e (fst p) (folder_items e xs (fst p)) (snd p)"
      by (simp add: grouped_def)
    from agrees_view [OF this] show ?thesis by (simp add: expected_view_def)
  qed
  have "map album_view (formattedAlbums e st)
      = map (\<lambda>a. (albumName a, artist a, coverUrl a,
                 map (\<lambda>t. (name t, url t)) (sort_key order (tracks a)))) (map snd ?ps)"
    by (simp only: formattedAlbums_def map_present_view Object_values_def)
  also have "\<dots> = map (\<lambda>p. expected_view e xs (fst p)) ?ps"
    using each by (simp add: o_def)
  also have "\<dots> = map (expected_view e xs) (map fst ?ps)"
    by (simp add: o_def)
  also have "map fst ?ps = js_key_order (map fst ?m)"
    by (simp only: ordered_keys)
  finally show ?thesis .
qed

lemma response_view:
  assumes "body (fst (get_albums e)) = success_body albums"
    and "listObjectsV2 e (listing_request e) = Inr Contents"
  shows "map album_view albums = map (expected_view e Contents) (album_folders e Contents)"
    and "set (album_folders e Contents) \<subseteq> set (folder_names e Contents)"
    and "distinct (album_folders e Contents)"
proof -
  from get_albums_success [OF assms(1)] assms(2) obtain st
    where run: "group_albums e Contents = Inr st" and albums: "albums = formattedAlbums e st"
    by auto
  have g: "grouped e Contents st" using run by (rule grouped_group_albums)
  have folders: "album_folders e Contents = js_key_order (map fst (albumMap st))"
    by (simp add: album_folders_def run)
  show "map album_view albums = map (expected_view e Contents) (album_folders e Contents)"
    using formatted_view [OF g] by (simp add: albums folders)
  show "set (album_folders e Contents) \<subseteq> set (folder_names e Contents)"
    using grouped_keys_listed [OF g] by (simp add: folders)
  have "map fst (albumMap st)
      = first_seen (filter (\<lambda>a. a \<in> fst ` set (albumMap st)) (folder_names e Contents))"
    using g by (simp add: grouped_def)
  then have "distinct (map fst (albumMap st))"
    using distinct_first_seen
      [of "filter (\<lambda>a. a \<in> fst ` set (albumMap st)) (folder_names e Contents)"]
    by simp
  then have "distinct (js_key_order (map fst (albumMap st)))"
    by (auto simp: js_key_order_def)
  then show "distinct (album_folders e Contents)" by (simp add: folders)
qed

lemma response_album_view:
  assumes "body (fst (get_albums e)) = success_body albums"
    and "listObjectsV2 e (listing_request e) = Inr Contents"
    and "i < length albums"
  shows "i < length (album_folders e Contents)"
    and "album_view (albums ! i) = expected_view e Contents (album_folders e Contents ! i)"
    and "album_folders e Contents ! i \<in> set (folder_names e Contents)"
proof -
  let ?names = "album_folders e Contents"
  have view: "map album_view albums = map (expected_view e Contents) ?names"
    using assms(1,2) by (rule response_view(1))
  then have "length (map album_view albums) = length (map (expected_view e Contents) ?names)"
    by simp
  then have len: "length albums = length ?names" by simp
  with assms(3) show i: "i < length ?names" by simp
  have "map album_view albums ! i = map (expected_view e Contents) ?names ! i"
    by (simp only: view)
  with assms(3) i show "album_view (albums ! i) = expected_view e Contents (?names ! i)"
    by simp
  from i have "?names ! i \<in> set ?names" by simp
  with response_view(2) [OF assms(1,2)] show "?names ! i \<in> set (folder_names e Contents)"
    by blast
qed

lemma group_albums_succeeds:
  assumes "\<forall>a\<in>set (folder_names e Contents). a \<notin> set (inherited_names e)"
  shows "\<exists>st. group_albums e Contents = Inr st
     \<and> map fst (albumMap st) = first_seen (folder_names e Contents)"
  using assms
proof (induction Contents rule: rev_induct)
  case Nil
  then show ?case by (simp add: group_albums_def initial_state_def folder_names_def)
next
  case (snoc x xs)
  have proto: "''__proto__'' \<in> set (inherited_names e)"
    by (simp add: inherited_names_def object_prototype_names_def)
  from snoc.prems have old: "\<forall>a\<in>set (folder_names e xs). a \<notin> set (inherited_names e)"
    by (simp add: folder_names_snoc)
  from snoc.IH [OF old] obtain st0 where run: "group_albums e xs = Inr st0" by blast
  have g0: "grouped e xs st0" using run by (rule grouped_group_albums)
  from old proto have "''__proto__'' \<notin> set (folder_names e xs)" by blast
  with g0 have names0: "prototype_names st0 = inherited_names e" by (simp add: grouped_def)
  have "\<exists>st. process_item e x st0 = Inr st"
  proof (cases "item_parts e x")
    case None
    then show ?thesis by (simp add: process_item_def)
  next
    case (Some p)
    with snoc.prems have "fst p \<notin> set (inherited_names e)"
      by (simp add: folder_names_snoc)
    with Some names0 show ?thesis
      by (cases p) (simp add: process_item_def group_item_unfold Let_def)
  qed
  then obtain st where step: "process_item e x st0 = Inr st" by blast
  with run have run': "group_albums e (xs @ [x]) = Inr st"
    by (simp add: group_albums_def forEach_snoc)
  have g: "grouped e (xs @ [x]) st" using run' by (rule grouped_group_albums)
  from snoc.prems proto have "''__proto__'' \<notin> set (folder_names e (xs @ [x]))" by blast
  with g have names: "prototype_names st = inherited_names e" by (simp add: grouped_def)
  from g have all: "\<forall>a\<in>set (folder_names e (xs @ [x])). a \<in> fst ` set (albumMap st)"
    using snoc.prems by (simp add: grouped_def names)
  then have "filter (\<lambda>a. a \<in> fst ` set (albumMap st)) (folder_names e (xs @ [x]))
      = folder_names e (xs @ [x])"
    by (simp only: filter_id_conv)
  with g have "map fst (albumMap st) = first_seen (folder_names e (xs @ [x]))"
    by (simp add: grouped_def)
  with run' show ?case by blast
qed

section \<open>Folder markers\<close>

lemma replace_first_prefix: "replace_first p (p @ r) = r"
proof (cases "p @ r")
  case Nil
  then show ?thesis by simp
next
  case (Cons c cs)
  have "prefix p (c # cs)" by (simp flip: Cons)
  then have "replace_first p (c # cs) = drop (length p) (c # cs)" by simp
  then show ?thesis by (simp flip: Cons)
qed

lemma split_from_marker:
  "CHR ''/'' \<notin> set s \<Longrightarrow> split_from ''/'' acc (s @ ''/'') = [rev acc @ s, []]"
  by (induction s arbitrary: acc) simp_all

lemma item_parts_marker:
  assumes "CHR ''/'' \<notin> set folderName"
  shows "item_parts e (S3_FOLDER_PATH e @ folderName @ ''/'') = Some (folderName, [])"
proof -
  have "split (replace_first (S3_FOLDER_PATH e) (S3_FOLDER_PATH e @ folderName @ ''/'')) ''/''
      = [folderName, []]"
    using assms by (simp add: replace_first_prefix split_def split_from_marker)
  then show ?thesis by (simp add: item_parts_def Let_def)
qed

lemma empty_file_name: "\<not> is_cover []" "track_number_name [] = (0, [])"
  by (simp_all add: is_cover_def toLowerCase_def track_number_name_def trackMatch_def)

lemma marker_response:
  "get_albums (example_env (\<lambda>p. Inr marker_keys)) =
     (\<lparr>status = 500, body = JObj [(''success'', JBool False),
         (''error'', JStr (message TypeError_push))]\<rparr>,
      [listing_request (example_env (\<lambda>p. Inr marker_keys))])"
proof -
  have "item_parts (example_env (\<lambda>p. Inr marker_keys)) (''p/'' @ ''constructor'' @ ''/'')
      = Some (''constructor'', [])"
    using item_parts_marker [of "''constructor''" "example_env (\<lambda>p. Inr marker_keys)"]
    by (simp add: example_prefix)
  then have "group_albums (example_env (\<lambda>p. Inr marker_keys)) marker_keys = Inl TypeError_push"
    by (simp add: group_albums_def marker_keys_def process_item_def group_item_unfold
        empty_file_name example_initial object_prototype_names_def)
  then show ?thesis
    by (simp add: get_albums_def example_credentials example_listing handleS3Error_def
        TypeError_push_def)
qed

text \<open>
  C10. For a key that is the prefix, a folder name without a slash and one slash, the
  relative path has the two segments folder name and empty string; the empty file name is
  no cover and parses to number 0 and the empty name. When the folder name is not one of
  the names found on \<^verbatim>\<open>Object.prototype\<close> (or is already an entry of \<open>albumMap\<close>),
  the entry exists after the step and its last track has the empty name, the number 0 and
  the resolved marker key. When the folder name is found on the prototype and is no entry
  of the map, the step throws instead, and the request for the listing \<open>marker_keys\<close>
  is answered with status 500.
\<close>

theorem folder_marker_track:
  "(CHR ''/'' \<notin> set folderName \<longrightarrow>
      item_parts e (S3_FOLDER_PATH e @ folderName @ ''/'') = Some (folderName, [])
      \<and> \<not> is_cover [] \<and> track_number_name [] = (0, []))
   \<and> (CHR ''/'' \<notin> set folderName
        \<and> (folderName \<notin> set (prototype_names st) \<or> map_of (albumMap st) folderName \<noteq> None)
      \<longrightarrow> (\<exists>st' alb. process_item e (S3_FOLDER_PATH e @ folderName @ ''/'') st = Inr st'
             \<and> map_of (albumMap st') folderName = Some alb
             \<and> tracks alb \<noteq> []
             \<and> last (tracks alb) =
                 \<lparr>trackId = unique_id e st folderName 0, name = [],
                  url = resolve_url e (S3_FOLDER_PATH e @ folderName @ ''/''), order = 0\<rparr>
             \<and> butlast (tracks alb) =
                 (case map_of (albumMap st) folderName of None \<Rightarrow> [] | Some old \<Rightarrow> tracks old)))
   \<and> (CHR ''/'' \<notin> set folderName \<and> folderName \<in> set (prototype_names st)
        \<and> map_of (albumMap st) folderName = None
      \<longrightarrow> process_item e (S3_FOLDER_PATH e @ folderName @ ''/'') st = Inl TypeError_push)
   \<and> fst (get_albums (example_env (\<lambda>p. Inr marker_keys))) =
        \<lparr>status = 500, body = JObj [(''success'', JBool False),
           (''error'', JStr (message TypeError_push))]\<rparr>"
proof (intro conjI impI)
  assume "CHR ''/'' \<notin> set folderName"
  then show "item_parts e (S3_FOLDER_PATH e @ folderName @ ''/'') = Some (folderName, [])"
    by (rule item_parts_marker)
next
  show "\<not> is_cover []" by (rule empty_file_name)
  show "track_number_name [] = (0, [])" by (rule empty_file_name)
next
  let ?Key = "S3_FOLDER_PATH e @ folderName @ ''/''"
  assume a: "CHR ''/'' \<notin> set folderName
        \<and> (folderName \<notin> set (prototype_names st) \<or> map_of (albumMap st) folderName \<noteq> None)"
  then have parts: "item_parts e ?Key = Some (folderName, [])"
    by (simp add: item_parts_marker)
  from a obtain st' where gi: "group_item e ?Key folderName [] st = Inr st'"
    by (auto simp: group_item_unfold Let_def empty_file_name)
  from group_item_track [OF empty_file_name(1) gi]
  obtain alb where "map_of (albumMap st') folderName = Some alb" "tracks alb \<noteq> []"
    "last (tracks alb) = new_track e st ?Key folderName []"
    "butlast (tracks alb) =
       (case map_of (albumMap st) folderName of None \<Rightarrow> [] | Some old \<Rightarrow> tracks old)"
    by blast
  with gi parts show "\<exists>st' alb. process_item e ?Key st = Inr st'
             \<and> map_of (albumMap st') folderName = Some alb
             \<and> tracks alb \<noteq> []
             \<and> last (tracks alb) =
                 \<lparr>trackId = unique_id e st folderName 0, name = [],
                  url = resolve_url e ?Key, order = 0\<rparr>
             \<and> butlast (tracks alb) =
                 (case map_of (albumMap st) folderName of None \<Rightarrow> [] | Some old \<Rightarrow> tracks old)"
    by (simp add: process_item_def new_track_def empty_file_name)
next
  assume "CHR ''/'' \<notin> set folderName \<and> folderName \<in> set (prototype_names st)
        \<and> map_of (albumMap st) folderName = None"
  then show "process_item e (S3_FOLDER_PATH e @ folderName @ ''/'') st = Inl TypeError_push"
    by (simp add: process_item_def item_parts_marker group_item_unfold empty_file_name)
next
  show "fst (get_albums (example_env (\<lambda>p. Inr marker_keys))) =
        \<lparr>status = 500, body = JObj [(''success'', JBool False),
           (''error'', JStr (message TypeError_push))]\<rparr>"
    by (simp add: marker_response)
qed

theorem folder_marker_track_witness:
  "(\<exists>st' alb. process_item (example_env (\<lambda>p. Inr [])) ''p/Night Drive/''
        (initial_state (example_env (\<lambda>p. Inr []))) = Inr st'
      \<and> map_of (albumMap st') ''Night Drive'' = Some alb
      \<and> tracks alb =
          [\<lparr>trackId = unique_id (example_env (\<lambda>p. Inr []))
              (initial_state (example_env (\<lambda>p. Inr []))) ''Night Drive'' 0,
            name = [], url = ''https://cdn/p/Night Drive/'', order = 0\<rparr>])
   \<and> process_item (example_env (\<lambda>p. Inr [])) ''p/toString/''
        (initial_state (example_env (\<lambda>p. Inr []))) = Inl TypeError_push"
proof -
  let ?e = "example_env (\<lambda>p. Inr [])"
  let ?st = "initial_state ?e"
  have p: "S3_FOLDER_PATH ?e = ''p/''" by (rule example_prefix)
  have h1: "CHR ''/'' \<notin> set ''Night Drive''
      \<and> (''Night Drive'' \<notin> set (prototype_names ?st)
          \<or> map_of (albumMap ?st) ''Night Drive'' \<noteq> None)"
    by (simp add: example_initial object_prototype_names_def)
  have h2: "CHR ''/'' \<notin> set ''toString'' \<and> ''toString'' \<in> set (prototype_names ?st)
      \<and> map_of (albumMap ?st) ''toString'' = None"
    by (simp add: example_initial object_prototype_names_def)
  have u: "resolve_url ?e ''p/Night Drive/'' = ''https://cdn/p/Night Drive/''"
    by (simp add: resolve_url_def example_env_def)
  from folder_marker_track [of "''Night Drive''" ?e ?st] h1
  obtain st' alb where r: "process_item ?e (S3_FOLDER_PATH ?e @ ''Night Drive'' @ ''/'') ?st = Inr st'"
    "map_of (albumMap st') ''Night Drive'' = Some alb" "tracks alb \<noteq> []"
    "last (tracks alb) = \<lparr>trackId = unique_id ?e ?st ''Night Drive'' 0, name = [],
        url = resolve_url ?e (S3_FOLDER_PATH ?e @ ''Night Drive'' @ ''/''), order = 0\<rparr>"
    "butlast (tracks alb) =
       (case map_of (albumMap ?st) ''Night Drive'' of None \<Rightarrow> [] | Some old \<Rightarrow> tracks old)"
    by blast
  from r(5) have "butlast (tracks alb) = []" by (simp add: example_initial)
  with r(3) have "tracks alb = [last (tracks alb)]"
    by (metis append_butlast_last_id append_Nil)
  with r(1,2,4) have first: "\<exists>st' alb. process_item ?e ''p/Night Drive/'' ?st = Inr st'
      \<and> map_of (albumMap st') ''Night Drive'' = Some alb
      \<and> tracks alb =
          [\<lparr>trackId = unique_id ?e ?st ''Night Drive'' 0,
            name = [], url = ''https://cdn/p/Night Drive/'', order = 0\<rparr>]"
    by (simp add: p u)
  have "process_item ?e (S3_FOLDER_PATH ?e @ ''toString'' @ ''/'') ?st = Inl TypeError_push"
    using folder_marker_track [of "''toString''" ?e ?st] h2 by blast
  then have "process_item ?e ''p/toString/'' ?st = Inl TypeError_push"
    by (simp add: p)
  with first show ?thesis by blast
qed

section \<open>The order of the albums\<close>

lemma index_group: "group_albums (example_env s3) index_keys = Inr index_state"
  unfolding index_keys_def index_state_def by code_simp

lemma index_formatted: "formattedAlbums (example_env s3) index_state = index_albums"
  unfolding index_state_def index_albums_def
  by (simp add: formattedAlbums_def Object_values_def array_index_def is_digit_def
      present_album_def Let_def zero_enat_def)

lemma index_folder_names: "folder_names (example_env s3) index_keys = [''10'', ''9'']"
  unfolding index_keys_def by code_simp

text \<open>
  C6, as the specification states it, fails: the storage service lists the folder
  \<^verbatim>\<open>10\<close> before the folder \<^verbatim>\<open>9\<close>, and the response holds the album of \<^verbatim>\<open>9\<close>
  first.
\<close>

theorem album_order_counterexample:
  "first_seen (folder_names (example_env (\<lambda>p. Inr index_keys)) index_keys) = [''10'', ''9'']
   \<and> fst (get_albums (example_env (\<lambda>p. Inr index_keys)))
       = \<lparr>status = 200, body = success_body index_albums\<rparr>
   \<and> map albumName index_albums = [''9'', ''10'']"
  by (simp add: index_folder_names first_seen_def get_albums_def example_credentials
      example_listing index_group index_formatted)
    (simp add: index_albums_def)

text \<open>
  C6, amended. For every key listing in which no folder name is a property name found on
  \<^verbatim>\<open>Object.prototype\<close> when the request starts, the response is a success response whose albums are, in
  this order: the folders whose names are array indices (canonical decimal numbers below
  \<open>2 ^ 32 - 1\<close>) in ascending numeric order, then the other folders in the order in which
  the listing first shows them. There is one album for each folder name, \<open>count\<close> is the
  number of albums, and when no folder name is an array index the order is the order of
  first encounter.
\<close>

theorem album_sequence:
  assumes "credentialsVerified e"
    and "listObjectsV2 e (listing_request e) = Inr Contents"
    and "\<forall>a\<in>set (folder_names e Contents). a \<notin> set (inherited_names e)"
  shows "\<exists>albums. fst (get_albums e) = \<lparr>status = 200, body = success_body albums\<rparr>
      \<and> map album_view albums
          = map (expected_view e Contents) (js_key_order (first_seen (folder_names e Contents)))
      \<and> length albums = length (first_seen (folder_names e Contents))
      \<and> json_field (success_body albums) ''count'' = Some (JNum (length albums))
      \<and> ((\<forall>k\<in>set (folder_names e Contents). array_index k = None) \<longrightarrow>
           map album_view albums
             = map (expected_view e Contents) (first_seen (folder_names e Contents)))"
proof -
  from group_albums_succeeds [OF assms(3)] obtain st where run: "group_albums e Contents = Inr st"
    and keys: "map fst (albumMap st) = first_seen (folder_names e Contents)"
    by blast
  let ?albums = "formattedAlbums e st"
  let ?names = "first_seen (folder_names e Contents)"
  have resp: "fst (get_albums e) = \<lparr>status = 200, body = success_body ?albums\<rparr>"
    using assms(1,2) run by (simp add: get_albums_def)
  have view: "map album_view ?albums = map (expected_view e Contents) (js_key_order ?names)"
    using formatted_view [OF grouped_group_albums [OF run]] by (simp only: keys)
  have "length (map album_view ?albums)
      = length (map (expected_view e Contents) (js_key_order ?names))"
    by (simp only: view)
  then have len: "length ?albums = length ?names" by simp
  have count: "json_field (success_body ?albums) ''count'' = Some (JNum (length ?albums))"
    by (simp add: success_body_def json_field_def)
  have plain: "map album_view ?albums = map (expected_view e Contents) ?names"
    if "\<forall>k\<in>set (folder_names e Contents). array_index k = None"
  proof -
    from that have "js_key_order ?names = ?names"
      by (intro js_key_order_plain) simp
    with view show ?thesis by simp
  qed
  from resp view len count plain show ?thesis by blast
qed

theorem album_sequence_witness:
  "\<exists>albums. fst (get_albums (example_env (\<lambda>p. Inr index_keys)))
        = \<lparr>status = 200, body = success_body albums\<rparr>
      \<and> map album_view albums
          = map (expected_view (example_env (\<lambda>p. Inr index_keys)) index_keys) [''9'', ''10'']
      \<and> length albums = 2"
proof -
  let ?e = "example_env (\<lambda>p. Inr index_keys)"
  have names: "folder_names ?e index_keys = [''10'', ''9'']" by (rule index_folder_names)
  have h: "\<forall>a\<in>set (folder_names ?e index_keys). a \<notin> set (inherited_names ?e)"
    by (simp add: names example_inherited object_prototype_names_def)
  have order: "js_key_order (first_seen (folder_names ?e index_keys)) = [''9'', ''10'']"
    by (simp add: names first_seen_def js_key_order_def array_index_def is_digit_def)
  from album_sequence [OF example_credentials _ h] order show ?thesis
    by (auto simp: example_listing names first_seen_def numeral_2_eq_2)
qed

section \<open>Cover names without regard to case\<close>















section \<open>The sequence of the tracks and the cover\<close>

lemma listing_response:
  assumes "credentialsVerified e"
    and "listObjectsV2 e (listing_request e) = Inr Contents"
    and "\<forall>a\<in>set (folder_names e Contents). a \<notin> set (inherited_names e)"
  shows "\<exists>albums. fst (get_albums e) = \<lparr>status = 200, body = success_body albums\<rparr>
      \<and> length albums = length (first_seen (folder_names e Contents))
      \<and> (\<forall>i<length albums. album_view (albums ! i)
            = expected_view e Contents (js_key_order (first_seen (folder_names e Contents)) ! i))"
proof -
  from group_albums_succeeds [OF assms(3)] obtain st where run: "group_albums e Contents = Inr st"
    and keys: "map fst (albumMap st) = first_seen (folder_names e Contents)"
    by blast
  let ?albums = "formattedAlbums e st"
  let ?names = "js_key_order (first_seen (folder_names e Contents))"
  have resp: "fst (get_albums e) = \<lparr>status = 200, body = success_body ?albums\<rparr>"
    using assms(1,2) run by (simp add: get_albums_def)
  have view: "map album_view ?albums = map (expected_view e Contents) ?names"
    using formatted_view [OF grouped_group_albums [OF run]] by (simp only: keys)
  have "length (map album_view ?albums) = length (map (expected_view e Contents) ?names)"
    by (simp only: view)
  then have len: "length ?albums = length (first_seen (folder_names e Contents))" by simp
  have each: "album_view (?albums ! i) = expected_view e Contents (?names ! i)"
    if "i < length ?albums" for i
  proof -
    have "map album_view ?albums ! i = map (expected_view e Contents) ?names ! i"
      by (simp only: view)
    with that len show ?thesis by simp
  qed
  from resp len each show ?thesis by blast
qed

lemma view_tracks:
  assumes "album_view alb = expected_view e Contents a"
  shows "map (\<lambda>t. (name t, url t)) (tracks alb)
      = map snd (sort_key fst (parsed_tracks e (folder_items e Contents a)))"
  using assms by (simp add: album_view_def expected_view_def)


lemma big_listing:
  "credentialsVerified (example_env (\<lambda>p. Inr big_keys))"
  "listObjectsV2 (example_env (\<lambda>p. Inr big_keys)) (listing_request (example_env (\<lambda>p. Inr big_keys)))
     = Inr big_keys"
  by (simp_all add: example_credentials example_listing)

lemma big_folder_names: "folder_names (example_env s3) big_keys = [''A'', ''A'', ''A'']"
  unfolding big_keys_def by code_simp

lemma big_items:
  "folder_items (example_env s3) big_keys ''A''
     = [(''p/A/9007199254740993 - a.mp3'', ''9007199254740993 - a.mp3''),
        (''p/A/9007199254740992 - b.mp3'', ''9007199254740992 - b.mp3''),
        (''p/A/3 - c.mp3'', ''3 - c.mp3'')]"
  unfolding big_keys_def by code_simp

lemma big_numbers:
  "track_number_name ''9007199254740993 - a.mp3'' = (9007199254740992, ''a'')"
  "track_number_name ''9007199254740992 - b.mp3'' = (9007199254740992, ''b'')"
  "track_number_name ''3 - c.mp3'' = (3, ''c'')"
proof -
  have m: "trackMatch ''9007199254740993 - a.mp3'' = Some (''9007199254740993'', ''a.mp3'')"
    "trackMatch ''9007199254740992 - b.mp3'' = Some (''9007199254740992'', ''b.mp3'')"
    "trackMatch ''3 - c.mp3'' = Some (''3'', ''c.mp3'')"
    by code_simp+
  have n: "parseInt ''3'' = 3"
    by (simp add: parseInt_def to_Number_exact numeral_eq_enat)
  have t: "trim ''a.mp3'' = ''a.mp3''" "trim ''b.mp3'' = ''b.mp3''" "trim ''c.mp3'' = ''c.mp3''"
    by (simp_all add: trim_def is_space_def)
  show "track_number_name ''9007199254740993 - a.mp3'' = (9007199254740992, ''a'')"
    "track_number_name ''9007199254740992 - b.mp3'' = (9007199254740992, ''b'')"
    "track_number_name ''3 - c.mp3'' = (3, ''c'')"
    by (simp_all add: track_number_name_def m n t parse_large)
qed

lemma big_classes:
  "\<not> is_cover ''9007199254740993 - a.mp3''" "\<not> is_cover ''9007199254740992 - b.mp3''"
  "\<not> is_cover ''3 - c.mp3''"
  by code_simp+

lemma big_parsed:
  "parsed_tracks (example_env s3) (folder_items (example_env s3) big_keys ''A'')
     = [(9007199254740992, ''a'', ''https://cdn/p/A/9007199254740993 - a.mp3''),
        (9007199254740992, ''b'', ''https://cdn/p/A/9007199254740992 - b.mp3''),
        (3, ''c'', ''https://cdn/p/A/3 - c.mp3'')]"
  by (simp add: parsed_tracks_def big_items big_classes big_numbers example_url)

lemma big_sorted:
  "map snd (sort_key fst
     [(9007199254740992 :: number, ''a'', ''https://cdn/p/A/9007199254740993 - a.mp3''),
      (9007199254740992, ''b'', ''https://cdn/p/A/9007199254740992 - b.mp3''),
      (3, ''c'', ''https://cdn/p/A/3 - c.mp3'')])
   = [(''c'', ''https://cdn/p/A/3 - c.mp3''), (''a'', ''https://cdn/p/A/9007199254740993 - a.mp3''),
      (''b'', ''https://cdn/p/A/9007199254740992 - b.mp3'')]"
  by (simp add: numeral_eq_enat)

lemma single_folder: "js_key_order (first_seen [''A'', ''A'', ''A'']) = [''A'']"
  by (simp add: first_seen_def js_key_order_def array_index_def is_digit_def)

text \<open>
  C5. For a listing in which no folder name is found on \<^verbatim>\<open>Object.prototype\<close>, the
  response is a success response with one album for each folder, and the sequence of the
  tracks of each album is the stable ascending sort, by parsed track number, of the tracks
  of its folder taken in listing order. In every success response every album belongs to a
  folder of the listing and its sequence of tracks is that sort: the numbers along the
  sequence ascend, no track is lost or added, and the tracks with one and the same number
  (0 when none was parsed) stand in the order of the listing. The parsed track numbers are
  Numbers: two runs of digits that denote different naturals and the same Number are equal
  numbers here.
\<close>

theorem track_sequence_sorted:
  "(credentialsVerified e \<and> listObjectsV2 e (listing_request e) = Inr Contents
      \<and> (\<forall>a\<in>set (folder_names e Contents). a \<notin> set (inherited_names e)) \<longrightarrow>
      (\<exists>albums. fst (get_albums e) = \<lparr>status = 200, body = success_body albums\<rparr>
         \<and> length albums = length (first_seen (folder_names e Contents))
         \<and> (\<forall>i<length albums.
               map (\<lambda>t. (name t, url t)) (tracks (albums ! i))
                 = map snd (sort_key fst (parsed_tracks e (folder_items e Contents
                     (js_key_order (first_seen (folder_names e Contents)) ! i)))))))
   \<and> (body (fst (get_albums e)) = success_body albums
        \<and> listObjectsV2 e (listing_request e) = Inr Contents \<and> i < length albums \<longrightarrow>
        album_folders e Contents ! i \<in> set (folder_names e Contents)
        \<and> map (\<lambda>t. (name t, url t)) (tracks (albums ! i))
           = map snd (sort_key fst (parsed_tracks e
               (folder_items e Contents (album_folders e Contents ! i))))
        \<and> sorted (map fst (sort_key fst (parsed_tracks e
               (folder_items e Contents (album_folders e Contents ! i)))))
        \<and> mset (sort_key fst (parsed_tracks e
               (folder_items e Contents (album_folders e Contents ! i))))
           = mset (parsed_tracks e
               (folder_items e Contents (album_folders e Contents ! i)))
        \<and> filter (\<lambda>q. fst q = n) (sort_key fst (parsed_tracks e
               (folder_items e Contents (album_folders e Contents ! i))))
           = filter (\<lambda>q. fst q = n) (parsed_tracks e
               (folder_items e Contents (album_folders e Contents ! i))))"
proof (intro conjI impI)
  let ?names = "js_key_order (first_seen (folder_names e Contents))"
  assume h: "credentialsVerified e \<and> listObjectsV2 e (listing_request e) = Inr Contents
      \<and> (\<forall>a\<in>set (folder_names e Contents). a \<notin> set (inherited_names e))"
  then have "\<exists>albums. fst (get_albums e) = \<lparr>status = 200, body = success_body albums\<rparr>
      \<and> length albums = length (first_seen (folder_names e Contents))
      \<and> (\<forall>i<length albums. album_view (albums ! i) = expected_view e Contents (?names ! i))"
    by (intro listing_response) simp_all
  then obtain albums where r: "fst (get_albums e) = \<lparr>status = 200, body = success_body albums\<rparr>
      \<and> length albums = length (first_seen (folder_names e Contents))
      \<and> (\<forall>i<length albums. album_view (albums ! i) = expected_view e Contents (?names ! i))" ..
  note resp = r [THEN conjunct1]
    and len = r [THEN conjunct2, THEN conjunct1]
    and each = r [THEN conjunct2, THEN conjunct2]
  have tracks: "\<forall>i<length albums.
      map (\<lambda>t. (name t, url t)) (tracks (albums ! i))
        = map snd (sort_key fst (parsed_tracks e (folder_items e Contents (?names ! i))))"
  proof (intro allI impI)
    fix i
    assume "i < length albums"
    from each [rule_format, OF this]
    show "map (\<lambda>t. (name t, url t)) (tracks (albums ! i))
        = map snd (sort_key fst (parsed_tracks e (folder_items e Contents (?names ! i))))"
      by (rule view_tracks)
  qed
  show "\<exists>albums. fst (get_albums e) = \<lparr>status = 200, body = success_body albums\<rparr>
         \<and> length albums = length (first_seen (folder_names e Contents))
         \<and> (\<forall>i<length albums.
               map (\<lambda>t. (name t, url t)) (tracks (albums ! i))
                 = map snd (sort_key fst (parsed_tracks e (folder_items e Contents
                     (js_key_order (first_seen (folder_names e Contents)) ! i)))))"
  proof (intro exI [of _ albums] conjI)
    show "fst (get_albums e) = \<lparr>status = 200, body = success_body albums\<rparr>" by (rule resp)
    show "length albums = length (first_seen (folder_names e Contents))" by (rule len)
    show "\<forall>i<length albums.
               map (\<lambda>t. (name t, url t)) (tracks (albums ! i))
                 = map snd (sort_key fst (parsed_tracks e (folder_items e Contents
                     (js_key_order (first_seen (folder_names e Contents)) ! i))))"
      by (rule tracks)
  qed
next
  let ?P = "parsed_tracks e (folder_items e Contents (album_folders e Contents ! i))"
  assume h: "body (fst (get_albums e)) = success_body albums
        \<and> listObjectsV2 e (listing_request e) = Inr Contents \<and> i < length albums"
  then have "album_view (albums ! i)
      = expected_view e Contents (album_folders e Contents ! i)"
    by (intro response_album_view(2)) simp_all
  then show "map (\<lambda>t. (name t, url t)) (tracks (albums ! i)) = map snd (sort_key fst ?P)"
    by (rule view_tracks)
  from h show "album_folders e Contents ! i \<in> set (folder_names e Contents)"
    by (intro response_album_view(3) [of e albums]) simp_all
  show "sorted (map fst (sort_key fst ?P))" by (rule sorted_sort_key)
  show "mset (sort_key fst ?P) = mset ?P" by (rule mset_sort)
  show "filter (\<lambda>q. fst q = n) (sort_key fst ?P) = filter (\<lambda>q. fst q = n) ?P"
    by (rule sort_key_stable)
qed

theorem track_sequence_sorted_witness:
  "\<exists>albums. fst (get_albums (example_env (\<lambda>p. Inr big_keys)))
        = \<lparr>status = 200, body = success_body albums\<rparr>
      \<and> length albums = 1
      \<and> map (\<lambda>t. (name t, url t)) (tracks (albums ! 0))
          = [(''c'', ''https://cdn/p/A/3 - c.mp3''),
             (''a'', ''https://cdn/p/A/9007199254740993 - a.mp3''),
             (''b'', ''https://cdn/p/A/9007199254740992 - b.mp3'')]"
proof -
  let ?e = "example_env (\<lambda>p. Inr big_keys)"
  have h: "credentialsVerified ?e \<and> listObjectsV2 ?e (listing_request ?e) = Inr big_keys
      \<and> (\<forall>a\<in>set (folder_names ?e big_keys). a \<notin> set (inherited_names ?e))"
    by (simp add: big_listing big_folder_names example_inherited object_prototype_names_def)
  have "\<exists>albums. fst (get_albums ?e) = \<lparr>status = 200, body = success_body albums\<rparr>
         \<and> length albums = length (first_seen (folder_names ?e big_keys))
         \<and> (\<forall>i<length albums.
               map (\<lambda>t. (name t, url t)) (tracks (albums ! i))
                 = map snd (sort_key fst (parsed_tracks ?e (folder_items ?e big_keys
                     (js_key_order (first_seen (folder_names ?e big_keys)) ! i)))))"
    using track_sequence_sorted [where e = "?e" and Contents = big_keys, THEN conjunct1] h
    by (rule mp)
  then obtain albums where r: "fst (get_albums ?e) = \<lparr>status = 200, body = success_body albums\<rparr>
         \<and> length albums = length (first_seen (folder_names ?e big_keys))
         \<and> (\<forall>i<length albums.
               map (\<lambda>t. (name t, url t)) (tracks (albums ! i))
                 = map snd (sort_key fst (parsed_tracks ?e (folder_items ?e big_keys
                     (js_key_order (first_seen (folder_names ?e big_keys)) ! i)))))" ..
  note resp = r [THEN conjunct1]
    and len = r [THEN conjunct2, THEN conjunct1]
    and each = r [THEN conjunct2, THEN conjunct2]
  from len have one: "length albums = 1"
    by (simp add: big_folder_names first_seen_def)
  then have "0 < length albums" by simp
  from each [rule_format, OF this]
  have seq: "map (\<lambda>t. (name t, url t)) (tracks (albums ! 0))
      = [(''c'', ''https://cdn/p/A/3 - c.mp3''),
         (''a'', ''https://cdn/p/A/9007199254740993 - a.mp3''),
         (''b'', ''https://cdn/p/A/9007199254740992 - b.mp3'')]"
    by (simp only: big_folder_names single_folder nth_Cons_0 big_parsed big_sorted)
  show ?thesis
  proof (intro exI [of _ albums] conjI)
    show "fst (get_albums ?e) = \<lparr>status = 200, body = success_body albums\<rparr>" by (rule resp)
    show "length albums = 1" by (rule one)
    show "map (\<lambda>t. (name t, url t)) (tracks (albums ! 0))
      = [(''c'', ''https://cdn/p/A/3 - c.mp3''),
         (''a'', ''https://cdn/p/A/9007199254740993 - a.mp3''),
         (''b'', ''https://cdn/p/A/9007199254740992 - b.mp3'')]" by (rule seq)
  qed
qed









end
